theory Spec2Isabelle
  imports Main "HOL-Library.Monad_Syntax"
begin

section \<open>SPLPv1 message validation: the data model\<close>

text \<open>
  The repository holds two versions of the validator: \<^verbatim>\<open>src/splpv1.c\<close>, which tests
  characters by comparing their codes with range bounds, and \<^verbatim>\<open>src/unnamed/part_000\<close>,
  which looks them up in three 128-entry tables and walks the text with a pointer.
  Both keep the protocol state in the file-level variable \<^verbatim>\<open>state\<close>; here the state
  is passed in and the new state is returned next to the verdict.
\<close>

datatype State =
  INIT | CONNECTING | CONNECTED | WAITING_VER | WAITING_DATA | WAITING_B64_DATA | DISCONNECTING

text \<open>
  Modelled from the spec: the header \<^verbatim>\<open>splpv1.h\<close> is not part of the sources. It declares
  the direction of a message, the verdict and the message structure; the spec (section 3)
  gives a message a direction, A to B or B to A, and a text, and the verdict two values.
\<close>

datatype Direction = A_TO_B | B_TO_A

datatype test_status = MESSAGE_INVALID | MESSAGE_VALID

record Message =
  direction :: Direction
  text_message :: string

definition CONNECT :: string where "CONNECT = ''CONNECT''"
definition CONNECT_OK :: string where "CONNECT_OK = ''CONNECT_OK''"
definition GET_VER :: string where "GET_VER = ''GET_VER''"
definition GET_DATA :: string where "GET_DATA = ''GET_DATA''"
definition GET_FILE :: string where "GET_FILE = ''GET_FILE''"
definition GET_COMMAND :: string where "GET_COMMAND = ''GET_COMMAND''"
definition GET_B64 :: string where "GET_B64 = ''GET_B64''"
definition DISCONNECT :: string where "DISCONNECT = ''DISCONNECT''"
definition VERSION :: string where "VERSION = ''VERSION''"
definition B64 :: string where "B64 = ''B64:''"
definition DISCONNECT_OK :: string where "DISCONNECT_OK = ''DISCONNECT_OK''"

subsection \<open>C strings\<close>

text \<open>
  A text is the list of the characters before its terminating null. The buffer holds
  the characters and the null: reading position \<open>length s\<close> gives the null, and a read
  beyond it is outside the text. Such a read is the value \<open>None\<close>, which every
  function below passes on, so \<open>None\<close> as the result of the validator means that it read
  past the terminating null (or outside a table).
\<close>

definition NUL :: char where
  "NUL = CHR 0x00"

definition char_at :: "string \<Rightarrow> nat \<Rightarrow> char option" where
  "char_at s i = (if i < length s then Some (s ! i) else if i = length s then Some NUL else None)"

text \<open>
  The code of a character, for the comparisons with numbers and the table lookups. The
  source compares \<^verbatim>\<open>char\<close> values, whose signedness the platform decides; every range
  the source tests lies within 0..127, and a byte above 127 is outside each of them
  whether it is read as 128..255 or as a negative number, so the unsigned reading decides
  each test as the signed one does.
\<close>

definition code :: "char \<Rightarrow> nat" where
  "code c = of_char c"

text \<open>
  \<^verbatim>\<open>strcmp\<close> and \<^verbatim>\<open>strncmp\<close> of the C library, on texts with their terminating null left
  implicit: the comparison stops at the first difference or at a null, \<^verbatim>\<open>strncmp\<close> also
  after \<open>n\<close> characters. The source only tests the result against zero.
\<close>

fun strcmp :: "string \<Rightarrow> string \<Rightarrow> int" where
  "strcmp [] [] = 0"
| "strcmp [] (y # ys) = - int (code y)"
| "strcmp (x # xs) [] = int (code x)"
| "strcmp (x # xs) (y # ys) =
     (if x \<noteq> y then int (code x) - int (code y)
      else if x = NUL then 0
      else strcmp xs ys)"

fun strncmp :: "string \<Rightarrow> string \<Rightarrow> nat \<Rightarrow> int" where
  "strncmp xs ys 0 = 0"
| "strncmp [] [] (Suc n) = 0"
| "strncmp [] (y # ys) (Suc n) = - int (code y)"
| "strncmp (x # xs) [] (Suc n) = int (code x)"
| "strncmp (x # xs) (y # ys) (Suc n) =
     (if x \<noteq> y then int (code x) - int (code y)
      else if x = NUL then 0
      else strncmp xs ys n)"

section \<open>The loops of the validator\<close>

text \<open>
  Each loop is a recursive function on the position in the text: an index in
  \<^verbatim>\<open>splpv1.c\<close>, the offset of \<^verbatim>\<open>pointer\<close> from \<^verbatim>\<open>msg->text_message\<close> in
  \<^verbatim>\<open>part_000\<close>. The two files differ only in how a character is tested, so the test
  is a parameter \<open>ok\<close>; it answers \<open>None\<close> when the test itself reads outside a table.
  A loop answers \<open>Some None\<close> when it returns \<^verbatim>\<open>MESSAGE_INVALID\<close> from inside the loop,
  and \<open>Some (Some i)\<close> when it ends at position \<open>i\<close>.
\<close>

text \<open>
  The loop of \<^verbatim>\<open>WAITING_VER\<close>, the same in both files:
  \<^verbatim>\<open>for (size_t i = 8; text[i] != '\0'; i++)
       if (!(text[i] >= 48 && text[i] < 58) || text[i] == 32) { state = INIT; return MESSAGE_INVALID; }\<close>
\<close>

function ver_loop :: "string \<Rightarrow> nat \<Rightarrow> nat option option" where
  "ver_loop s i =
     (case char_at s i of
        None \<Rightarrow> None
      | Some c \<Rightarrow>
          if c \<noteq> NUL then
            (if \<not> (48 \<le> code c \<and> code c < 58) \<or> code c = 32 then Some None
             else ver_loop s (i + 1))
          else Some (Some i))"
  by pat_completeness auto
termination
  by (relation "measure (\<lambda>(s, i). length s - i)")
     (auto simp: char_at_def NUL_def split: if_splits)

text \<open>
  The loop of \<^verbatim>\<open>WAITING_DATA\<close>:
  \<^verbatim>\<open>for (i = k; text[i] != ' ' && text[i] != '\0'; i++)
       if (!ok(text[i])) { state = INIT; return MESSAGE_INVALID; }\<close>
\<close>

function data_loop :: "(char \<Rightarrow> bool option) \<Rightarrow> string \<Rightarrow> nat \<Rightarrow> nat option option" where
  "data_loop ok s i =
     (case char_at s i of
        None \<Rightarrow> None
      | Some c \<Rightarrow>
          if c \<noteq> CHR '' '' \<and> c \<noteq> NUL then
            (case ok c of
               None \<Rightarrow> None
             | Some b \<Rightarrow> if \<not> b then Some None else data_loop ok s (i + 1))
          else Some (Some i))"
  by pat_completeness auto
termination
  by (relation "measure (\<lambda>(ok, s, i). length s - i)")
     (auto simp: char_at_def NUL_def split: if_splits)

text \<open>
  The loop of \<^verbatim>\<open>WAITING_B64_DATA\<close>, which looks two characters ahead:
  \<^verbatim>\<open>for (i = 5; text[i + 2] != '\0'; i++)
       if (!ok(text[i])) { state = INIT; return MESSAGE_INVALID; }\<close>
\<close>

function b64_loop :: "(char \<Rightarrow> bool option) \<Rightarrow> string \<Rightarrow> nat \<Rightarrow> nat option option" where
  "b64_loop ok s i =
     (case char_at s (i + 2) of
        None \<Rightarrow> None
      | Some c2 \<Rightarrow>
          if c2 \<noteq> NUL then
            (case char_at s i of
               None \<Rightarrow> None
             | Some c \<Rightarrow>
                 (case ok c of
                    None \<Rightarrow> None
                  | Some b \<Rightarrow> if \<not> b then Some None else b64_loop ok s (i + 1)))
          else Some (Some i))"
  by pat_completeness auto
termination
  by (relation "measure (\<lambda>(ok, s, i). length s - i)")
     (auto simp: char_at_def NUL_def split: if_splits)

declare ver_loop.simps [simp del] data_loop.simps [simp del] b64_loop.simps [simp del]

section \<open>The validator of \<^verbatim>\<open>src/splpv1.c\<close>\<close>

text \<open>The character tests of \<^verbatim>\<open>splpv1.c\<close>, written with the numbers of the source.\<close>

definition data_char :: "char \<Rightarrow> bool" where
  "data_char c =
     ((code c \<ge> 97 \<and> code c \<le> 122) \<or> (c = CHR ''.'') \<or> (code c \<ge> 48 \<and> code c \<le> 59))"

definition b64_char :: "char \<Rightarrow> bool" where
  "b64_char c =
     ((code c \<ge> 97 \<and> code c \<le> 122) \<or> (code c \<ge> 65 \<and> code c \<le> 90)
      \<or> (code c \<ge> 48 \<and> code c \<le> 57) \<or> (code c = 43) \<or> (code c = 47))"

definition b64_char_eq :: "char \<Rightarrow> bool" where
  "b64_char_eq c =
     ((code c \<ge> 97 \<and> code c \<le> 122) \<or> (code c \<ge> 65 \<and> code c \<le> 90)
      \<or> (code c \<ge> 48 \<and> code c \<le> 57) \<or> (code c = 61) \<or> (code c = 43) \<or> (code c = 47))"

text \<open>
  One branch of \<^verbatim>\<open>WAITING_DATA\<close>, entered when \<^verbatim>\<open>strncmp(text, CMD, n) == 0\<close>. The
  source writes it three times, for \<^verbatim>\<open>GET_DATA\<close> and \<^verbatim>\<open>GET_FILE\<close> with \<open>n = 8\<close> and for
  \<^verbatim>\<open>GET_COMMAND\<close> with \<open>n = 11\<close>; the three copies differ in the literal and in \<open>n\<close> only.
  \<open>data_end\<close> is the test after the loop has stopped at position \<open>i\<close>:
  \<^verbatim>\<open>if (text[i] == '\0' || strcmp(text + i + 1, CMD))\<close>. \<^verbatim>\<open>text + i + 1\<close> is the text from
  position \<open>i + 1\<close> on; \<^verbatim>\<open>||\<close> forms it only when \<^verbatim>\<open>text[i]\<close> is not the null, so it starts
  inside the text.
\<close>

definition data_end :: "string \<Rightarrow> string \<Rightarrow> nat \<Rightarrow> (test_status \<times> State) option" where
  "data_end s cmd i =
     do {
       e \<leftarrow> char_at s i;
       if e = NUL \<or> strcmp (drop (i + 1) s) cmd \<noteq> 0 then Some (MESSAGE_INVALID, INIT)
       else Some (MESSAGE_VALID, CONNECTED)
     }"

definition data_reply ::
  "(char \<Rightarrow> bool option) \<Rightarrow> string \<Rightarrow> string \<Rightarrow> nat \<Rightarrow> (test_status \<times> State) option" where
  "data_reply ok s cmd n =
     do {
       c \<leftarrow> char_at s n;
       if c \<noteq> CHR '' '' then Some (MESSAGE_INVALID, INIT)
       else do {
         r \<leftarrow> data_loop ok s (n + 1);
         case r of
           None \<Rightarrow> Some (MESSAGE_INVALID, INIT)
         | Some i \<Rightarrow> data_end s cmd i
       }
     }"

text \<open>
  The end of \<^verbatim>\<open>WAITING_B64_DATA\<close>, after the loop has stopped at position \<open>i\<close>: the
  tests of \<^verbatim>\<open>text[i]\<close> and \<^verbatim>\<open>text[i + 1]\<close>, then the test of the length \<open>len\<close>, which is
  \<^verbatim>\<open>i - 3\<close> in \<^verbatim>\<open>splpv1.c\<close> and \<^verbatim>\<open>pointer + 2 - initialPointer\<close> in \<^verbatim>\<open>part_000\<close>.
  \<^verbatim>\<open>&&\<close> reads \<^verbatim>\<open>text[i + 1]\<close> only when \<^verbatim>\<open>text[i]\<close> is \<^verbatim>\<open>'='\<close>.
\<close>

definition b64_end ::
  "(char \<Rightarrow> bool option) \<Rightarrow> (char \<Rightarrow> bool option) \<Rightarrow> string \<Rightarrow> nat \<Rightarrow> nat \<Rightarrow>
     (test_status \<times> State) option" where
  "b64_end ok ok_eq s i len =
     do {
       c \<leftarrow> char_at s i;
       b \<leftarrow> ok c;
       bad \<leftarrow>
         (if \<not> b then
            (if c = CHR ''='' then do { d \<leftarrow> char_at s (i + 1); Some (code d \<noteq> 61) }
             else Some True)
          else do { d \<leftarrow> char_at s (i + 1); b1 \<leftarrow> ok_eq d; Some (\<not> b1) });
       if bad then Some (MESSAGE_INVALID, INIT)
       else if len mod 4 \<noteq> 0 then Some (MESSAGE_INVALID, INIT)
       else Some (MESSAGE_VALID, CONNECTED)
     }"

text \<open>
  \<^verbatim>\<open>validate_message\<close> of \<^verbatim>\<open>splpv1.c\<close>. A \<^verbatim>\<open>return\<close> that does not assign \<^verbatim>\<open>state\<close> first
  gives the state back as it was. In \<^verbatim>\<open>WAITING_DATA\<close> a text that starts with none of the
  three commands leaves the \<^verbatim>\<open>switch\<close> by \<^verbatim>\<open>break\<close> and reaches the last line of the
  function, \<^verbatim>\<open>return MESSAGE_VALID\<close>. The \<^verbatim>\<open>default\<close> case is never taken, the state
  being one of the seven values of the enumeration.
\<close>

definition validate_message :: "State \<Rightarrow> Message \<Rightarrow> (test_status \<times> State) option" where
  "validate_message state msg =
     (case state of
        INIT \<Rightarrow>
          if strcmp (text_message msg) CONNECT \<noteq> 0 then Some (MESSAGE_INVALID, state)
          else if direction msg \<noteq> A_TO_B then Some (MESSAGE_INVALID, state)
          else Some (MESSAGE_VALID, CONNECTING)
      | CONNECTING \<Rightarrow>
          if strcmp (text_message msg) CONNECT_OK \<noteq> 0 then Some (MESSAGE_INVALID, INIT)
          else if direction msg \<noteq> B_TO_A then Some (MESSAGE_INVALID, INIT)
          else Some (MESSAGE_VALID, CONNECTED)
      | CONNECTED \<Rightarrow>
          if direction msg \<noteq> A_TO_B then Some (MESSAGE_INVALID, INIT)
          else if strcmp (text_message msg) GET_VER = 0 then Some (MESSAGE_VALID, WAITING_VER)
          else if strcmp (text_message msg) GET_DATA = 0 \<or> strcmp (text_message msg) GET_FILE = 0
                  \<or> strcmp (text_message msg) GET_COMMAND = 0
            then Some (MESSAGE_VALID, WAITING_DATA)
          else if strcmp (text_message msg) GET_B64 = 0 then Some (MESSAGE_VALID, WAITING_B64_DATA)
          else if strcmp (text_message msg) DISCONNECT = 0 then Some (MESSAGE_VALID, DISCONNECTING)
          else Some (MESSAGE_INVALID, state)
      | WAITING_VER \<Rightarrow>
          if strncmp (text_message msg) VERSION 7 = 0 then
            do {
              c \<leftarrow> char_at (text_message msg) 7;
              if c \<noteq> CHR '' '' then Some (MESSAGE_INVALID, INIT)
              else do {
                r \<leftarrow> ver_loop (text_message msg) 8;
                case r of
                  None \<Rightarrow> Some (MESSAGE_INVALID, INIT)
                | Some i \<Rightarrow> Some (MESSAGE_VALID, CONNECTED)
              }
            }
          else Some (MESSAGE_INVALID, INIT)
      | WAITING_DATA \<Rightarrow>
          if direction msg \<noteq> B_TO_A then Some (MESSAGE_INVALID, INIT)
          else if strncmp (text_message msg) GET_DATA 8 = 0
            then data_reply (Some \<circ> data_char) (text_message msg) GET_DATA 8
          else if strncmp (text_message msg) GET_FILE 8 = 0
            then data_reply (Some \<circ> data_char) (text_message msg) GET_FILE 8
          else if strncmp (text_message msg) GET_COMMAND 11 = 0
            then data_reply (Some \<circ> data_char) (text_message msg) GET_COMMAND 11
          else Some (MESSAGE_VALID, state)
      | WAITING_B64_DATA \<Rightarrow>
          if direction msg \<noteq> B_TO_A then Some (MESSAGE_INVALID, INIT)
          else if strncmp (text_message msg) B64 4 \<noteq> 0 then Some (MESSAGE_INVALID, INIT)
          else do {
            c \<leftarrow> char_at (text_message msg) 4;
            if c \<noteq> CHR '' '' then Some (MESSAGE_INVALID, INIT)
            else do {
              r \<leftarrow> b64_loop (Some \<circ> b64_char) (text_message msg) 5;
              case r of
                None \<Rightarrow> Some (MESSAGE_INVALID, INIT)
              | Some i \<Rightarrow>
                  b64_end (Some \<circ> b64_char) (Some \<circ> b64_char_eq) (text_message msg) i (i - 3)
            }
          }
      | DISCONNECTING \<Rightarrow>
          if strcmp (text_message msg) DISCONNECT_OK \<noteq> 0 then Some (MESSAGE_INVALID, INIT)
          else if direction msg \<noteq> B_TO_A then Some (MESSAGE_INVALID, INIT)
          else Some (MESSAGE_VALID, INIT))"

section \<open>The validator of \<^verbatim>\<open>src/unnamed/part_000\<close>\<close>

text \<open>
  The three tables of 128 entries, each 0 or 1. They are written row by row as the source
  lists them, ten entries to a row, each row as the string of its digits. An entry is
  read as \<^verbatim>\<open>*(table + *pointer)\<close>: the character is the index, and an index outside
  0..127 is outside the table.
\<close>

definition entries :: "string \<Rightarrow> nat list" where
  "entries digits = map (\<lambda>d. if d = CHR ''1'' then 1 else 0) digits"

definition table :: "nat list" where
  "table = entries
     (''0000000000''
      @ ''0000000000''
      @ ''0000000000''
      @ ''0000000000''
      @ ''0000001011''
      @ ''1111111100''
      @ ''0000000000''
      @ ''0000000000''
      @ ''0000000000''
      @ ''0000000111''
      @ ''1111111111''
      @ ''1111111111''
      @ ''11100000'')"

definition tableBase64 :: "nat list" where
  "tableBase64 = entries
     (''0000000000''
      @ ''0000000000''
      @ ''0000000000''
      @ ''0000000000''
      @ ''0001000111''
      @ ''1111111100''
      @ ''0000011111''
      @ ''1111111111''
      @ ''1111111111''
      @ ''1000000111''
      @ ''1111111111''
      @ ''1111111111''
      @ ''11100000'')"

definition tableBase64WithEquals :: "nat list" where
  "tableBase64WithEquals = entries
     (''0000000000''
      @ ''0000000000''
      @ ''0000000000''
      @ ''0000000000''
      @ ''0001000111''
      @ ''1111111100''
      @ ''0100011111''
      @ ''1111111111''
      @ ''1111111111''
      @ ''1000000111''
      @ ''1111111111''
      @ ''1111111111''
      @ ''11100000'')"

definition lookup :: "nat list \<Rightarrow> char \<Rightarrow> bool option" where
  "lookup t c = (if code c < length t then Some (t ! code c \<noteq> 0) else None)"

text \<open>
  \<^verbatim>\<open>validate_message\<close> of \<^verbatim>\<open>part_000\<close>. It differs from the one of \<^verbatim>\<open>splpv1.c\<close> in the
  order of the tests in \<^verbatim>\<open>CONNECTED\<close>, in a test of the direction at the head of
  \<^verbatim>\<open>WAITING_VER\<close>, and in the tables.
\<close>

definition validate_message_part000 :: "State \<Rightarrow> Message \<Rightarrow> (test_status \<times> State) option" where
  "validate_message_part000 state msg =
     (case state of
        INIT \<Rightarrow>
          if strcmp (text_message msg) CONNECT \<noteq> 0 then Some (MESSAGE_INVALID, state)
          else if direction msg \<noteq> A_TO_B then Some (MESSAGE_INVALID, state)
          else Some (MESSAGE_VALID, CONNECTING)
      | CONNECTING \<Rightarrow>
          if strcmp (text_message msg) CONNECT_OK \<noteq> 0 then Some (MESSAGE_INVALID, INIT)
          else if direction msg \<noteq> B_TO_A then Some (MESSAGE_INVALID, INIT)
          else Some (MESSAGE_VALID, CONNECTED)
      | CONNECTED \<Rightarrow>
          if direction msg \<noteq> A_TO_B then Some (MESSAGE_INVALID, INIT)
          else if strcmp (text_message msg) GET_DATA = 0 \<or> strcmp (text_message msg) GET_FILE = 0
                  \<or> strcmp (text_message msg) GET_COMMAND = 0
            then Some (MESSAGE_VALID, WAITING_DATA)
          else if strcmp (text_message msg) DISCONNECT = 0 then Some (MESSAGE_VALID, DISCONNECTING)
          else if strcmp (text_message msg) GET_B64 = 0 then Some (MESSAGE_VALID, WAITING_B64_DATA)
          else if strcmp (text_message msg) GET_VER = 0 then Some (MESSAGE_VALID, WAITING_VER)
          else Some (MESSAGE_INVALID, state)
      | WAITING_VER \<Rightarrow>
          if direction msg \<noteq> B_TO_A then Some (MESSAGE_INVALID, INIT)
          else if strncmp (text_message msg) VERSION 7 = 0 then
            do {
              c \<leftarrow> char_at (text_message msg) 7;
              if c \<noteq> CHR '' '' then Some (MESSAGE_INVALID, INIT)
              else do {
                r \<leftarrow> ver_loop (text_message msg) 8;
                case r of
                  None \<Rightarrow> Some (MESSAGE_INVALID, INIT)
                | Some i \<Rightarrow> Some (MESSAGE_VALID, CONNECTED)
              }
            }
          else Some (MESSAGE_INVALID, INIT)
      | WAITING_DATA \<Rightarrow>
          if direction msg \<noteq> B_TO_A then Some (MESSAGE_INVALID, INIT)
          else if strncmp (text_message msg) GET_DATA 8 = 0
            then data_reply (lookup table) (text_message msg) GET_DATA 8
          else if strncmp (text_message msg) GET_FILE 8 = 0
            then data_reply (lookup table) (text_message msg) GET_FILE 8
          else if strncmp (text_message msg) GET_COMMAND 11 = 0
            then data_reply (lookup table) (text_message msg) GET_COMMAND 11
          else Some (MESSAGE_VALID, state)
      | WAITING_B64_DATA \<Rightarrow>
          if direction msg \<noteq> B_TO_A then Some (MESSAGE_INVALID, INIT)
          else if strncmp (text_message msg) B64 4 \<noteq> 0 then Some (MESSAGE_INVALID, INIT)
          else do {
            c \<leftarrow> char_at (text_message msg) 4;
            if c \<noteq> CHR '' '' then Some (MESSAGE_INVALID, INIT)
            else do {
              r \<leftarrow> b64_loop (lookup tableBase64) (text_message msg) 5;
              case r of
                None \<Rightarrow> Some (MESSAGE_INVALID, INIT)
              | Some i \<Rightarrow>
                  b64_end (lookup tableBase64) (lookup tableBase64WithEquals) (text_message msg)
                    i (i + 2 - 5)
            }
          }
      | DISCONNECTING \<Rightarrow>
          if strcmp (text_message msg) DISCONNECT_OK \<noteq> 0 then Some (MESSAGE_INVALID, INIT)
          else if direction msg \<noteq> B_TO_A then Some (MESSAGE_INVALID, INIT)
          else Some (MESSAGE_VALID, INIT))"

text \<open>
  The caller, which is not part of the sources, calls the validator once for each message
  of a session, in order. \<open>validate_all\<close> does so from a given state and collects the
  verdicts; it stops at a read outside the text.
\<close>

fun validate_all ::
  "(State \<Rightarrow> Message \<Rightarrow> (test_status \<times> State) option) \<Rightarrow> State \<Rightarrow> Message list \<Rightarrow>
     (test_status list \<times> State) option" where
  "validate_all v state [] = Some ([], state)"
| "validate_all v state (m # ms) =
     (case v state m of
        None \<Rightarrow> None
      | Some (r, state') \<Rightarrow>
          (case validate_all v state' ms of
             None \<Rightarrow> None
           | Some (rs, state'') \<Rightarrow> Some (r # rs, state'')))"

section \<open>The grammar of the tokens, as the specification words it\<close>

text \<open>
  The specification of \<^verbatim>\<open>WaitingVersion\<close>: every character after \<^verbatim>\<open>VERSION\<close> and the space is
  an ASCII digit. The specification of \<^verbatim>\<open>WaitingData\<close>: a token consists only of lowercase
  ASCII letters, digits and the character \<^verbatim>\<open>.\<close>. These definitions follow the
  specification, not the source.
\<close>

definition spec_digit :: "char \<Rightarrow> bool" where
  "spec_digit c = (c \<in> set ''0123456789'')"

definition spec_data_char :: "char \<Rightarrow> bool" where
  "spec_data_char c = (c \<in> set (''abcdefghijklmnopqrstuvwxyz'' @ ''0123456789'' @ ''.''))"

text \<open>
  The specification of \<^verbatim>\<open>WaitingBase64\<close>: the alphabet of a token is \<^verbatim>\<open>A\<close>-\<^verbatim>\<open>Z\<close>, \<^verbatim>\<open>a\<close>-\<^verbatim>\<open>z\<close>,
  \<^verbatim>\<open>0\<close>-\<^verbatim>\<open>9\<close>, \<^verbatim>\<open>+\<close> and \<^verbatim>\<open>/\<close>; the token may end in zero, one or two \<^verbatim>\<open>=\<close>, which stand
  in its last two positions only, an \<^verbatim>\<open>=\<close> in the last but one position with an \<^verbatim>\<open>=\<close> in
  the last; and the length of the token, padding included, is a positive multiple of 4.
  \<open>spec_padded k tok\<close> says that \<open>tok\<close> is characters of the alphabet followed by exactly
  \<open>k\<close> signs \<^verbatim>\<open>=\<close>. These definitions follow the specification, not the source.
\<close>

definition spec_base64_alphabet :: "char \<Rightarrow> bool" where
  "spec_base64_alphabet c =
     (c \<in> set (''ABCDEFGHIJKLMNOPQRSTUVWXYZ'' @ ''abcdefghijklmnopqrstuvwxyz''
                @ ''0123456789'' @ ''+/''))"

definition spec_padded :: "nat \<Rightarrow> string \<Rightarrow> bool" where
  "spec_padded k tok =
     (k \<le> length tok
      \<and> list_all spec_base64_alphabet (take (length tok - k) tok)
      \<and> drop (length tok - k) tok = replicate k (CHR ''=''))"

definition spec_base64_token :: "string \<Rightarrow> bool" where
  "spec_base64_token tok =
     ((spec_padded 0 tok \<or> spec_padded 1 tok \<or> spec_padded 2 tok)
      \<and> 0 < length tok \<and> length tok mod 4 = 0)"

section \<open>Character codes and the string functions\<close>

lemma code_eq_iff: "(code c = code d) = (c = d)"
  by (simp add: code_def)

lemma code_NUL: "(code c = 0) = (c = NUL)"
proof -
  have "code NUL = 0" by (simp add: code_def NUL_def)
  then show ?thesis using code_eq_iff [of c NUL] by auto
qed

lemma code_61: "(code d = 61) = (d = CHR ''='')"
proof -
  have "code (CHR ''='') = 61" by (simp add: code_def)
  then show ?thesis using code_eq_iff [of d "CHR ''=''"] by auto
qed

text \<open>
  \<^verbatim>\<open>strcmp\<close> is zero exactly when the two texts agree up to their first null.
\<close>

lemma strcmp_0_iff:
  "(strcmp s t = 0) = (takeWhile (\<lambda>c. c \<noteq> NUL) s = takeWhile (\<lambda>c. c \<noteq> NUL) t)"
proof (induction s t rule: strcmp.induct)
  case 1
  show ?case by simp
next
  case (2 y ys)
  show ?case by (auto simp: code_NUL)
next
  case (3 x xs)
  show ?case by (auto simp: code_NUL)
next
  case (4 x xs y ys)
  then show ?case by (auto simp: code_eq_iff)
qed

lemma takeWhile_no_NUL: "NUL \<notin> set s \<Longrightarrow> takeWhile (\<lambda>c. c \<noteq> NUL) s = s"
  by (simp add: takeWhile_eq_all_conv) metis

lemma strcmp_same: "strcmp s s = 0"
  by (simp add: strcmp_0_iff)

lemma strcmp_longer:
  assumes "NUL \<notin> set xs" "NUL \<notin> set cmd"
  shows "strcmp (xs @ CHR '' '' # cmd) cmd \<noteq> 0"
proof -
  have "NUL \<notin> set (xs @ CHR '' '' # cmd)" using assms by (simp add: NUL_def)
  then have "takeWhile (\<lambda>c. c \<noteq> NUL) (xs @ CHR '' '' # cmd) = xs @ CHR '' '' # cmd"
    by (rule takeWhile_no_NUL)
  moreover have "takeWhile (\<lambda>c. c \<noteq> NUL) cmd = cmd"
    using assms(2) by (rule takeWhile_no_NUL)
  moreover have "xs @ CHR '' '' # cmd \<noteq> cmd"
  proof
    assume "xs @ CHR '' '' # cmd = cmd"
    then have "length (xs @ CHR '' '' # cmd) = length cmd" by simp
    then show False by simp
  qed
  ultimately show ?thesis by (simp add: strcmp_0_iff)
qed

text \<open>
  \<^verbatim>\<open>strncmp\<close> against a literal of \<open>n\<close> characters is zero exactly when the text starts
  with the literal.
\<close>

lemma strncmp_0_iff:
  "NUL \<notin> set t \<Longrightarrow> length t = n \<Longrightarrow> (strncmp s t n = 0) = (take n s = t)"
proof (induction n arbitrary: s t)
  case 0
  then show ?case by simp
next
  case (Suc n)
  then obtain y ys where t: "t = y # ys" by (cases t) auto
  with Suc.prems have y: "y \<noteq> NUL" and ys: "NUL \<notin> set ys" "length ys = n" by auto
  show ?case
  proof (cases s)
    case Nil
    with t y show ?thesis by (simp add: code_NUL)
  next
    case (Cons x xs)
    with t y Suc.IH [OF ys, of xs] show ?thesis by (auto simp: code_eq_iff)
  qed
qed

lemma take_length: "take n s = t \<Longrightarrow> length t = n \<Longrightarrow> n \<le> length s"
  by (metis length_take min.cobounded1 min.commute)

lemma strncmp_length: "NUL \<notin> set t \<Longrightarrow> length t = n \<Longrightarrow> strncmp s t n = 0 \<Longrightarrow> n \<le> length s"
  using strncmp_0_iff take_length by blast

lemma literal_facts:
  "NUL \<notin> set VERSION" "length VERSION = 7"
  "NUL \<notin> set GET_DATA" "length GET_DATA = 8"
  "NUL \<notin> set GET_FILE" "length GET_FILE = 8"
  "NUL \<notin> set GET_COMMAND" "length GET_COMMAND = 11"
  "NUL \<notin> set B64" "length B64 = 4"
  by (simp_all add: NUL_def VERSION_def GET_DATA_def GET_FILE_def GET_COMMAND_def B64_def)

lemma takeWhile_literals:
  "takeWhile (\<lambda>c. c \<noteq> NUL) CONNECT = CONNECT"
  "takeWhile (\<lambda>c. c \<noteq> NUL) CONNECT_OK = CONNECT_OK"
  "takeWhile (\<lambda>c. c \<noteq> NUL) GET_VER = GET_VER"
  "takeWhile (\<lambda>c. c \<noteq> NUL) GET_DATA = GET_DATA"
  "takeWhile (\<lambda>c. c \<noteq> NUL) GET_FILE = GET_FILE"
  "takeWhile (\<lambda>c. c \<noteq> NUL) GET_COMMAND = GET_COMMAND"
  "takeWhile (\<lambda>c. c \<noteq> NUL) GET_B64 = GET_B64"
  "takeWhile (\<lambda>c. c \<noteq> NUL) DISCONNECT = DISCONNECT"
  "takeWhile (\<lambda>c. c \<noteq> NUL) DISCONNECT_OK = DISCONNECT_OK"
  by (simp_all add: NUL_def CONNECT_def CONNECT_OK_def GET_VER_def GET_DATA_def GET_FILE_def
      GET_COMMAND_def GET_B64_def DISCONNECT_def DISCONNECT_OK_def)

lemma commands_differ:
  "GET_VER \<noteq> GET_DATA" "GET_VER \<noteq> GET_FILE" "GET_VER \<noteq> GET_COMMAND" "GET_VER \<noteq> GET_B64"
  "GET_VER \<noteq> DISCONNECT" "GET_DATA \<noteq> GET_B64" "GET_DATA \<noteq> DISCONNECT"
  "GET_FILE \<noteq> GET_B64" "GET_FILE \<noteq> DISCONNECT" "GET_COMMAND \<noteq> GET_B64"
  "GET_COMMAND \<noteq> DISCONNECT" "GET_B64 \<noteq> DISCONNECT"
  by (simp_all add: GET_VER_def GET_DATA_def GET_FILE_def GET_COMMAND_def GET_B64_def
      DISCONNECT_def)

lemma strncmp_commands:
  "strncmp (GET_DATA @ r) GET_DATA 8 = 0"
  "strncmp (GET_FILE @ r) GET_DATA 8 \<noteq> 0"
  "strncmp (GET_FILE @ r) GET_FILE 8 = 0"
  "strncmp (GET_COMMAND @ r) GET_DATA 8 \<noteq> 0"
  "strncmp (GET_COMMAND @ r) GET_FILE 8 \<noteq> 0"
  "strncmp (GET_COMMAND @ r) GET_COMMAND 11 = 0"
  by (simp_all add: strncmp_0_iff literal_facts)
     (simp_all add: GET_DATA_def GET_FILE_def GET_COMMAND_def)

section \<open>Reading the text\<close>

lemma char_at_in: "i < length s \<Longrightarrow> char_at s i = Some (s ! i)"
  by (simp add: char_at_def)

lemma char_at_end: "char_at s (length s) = Some NUL"
  by (simp add: char_at_def)

lemma char_at_Some: "i \<le> length s \<Longrightarrow> \<exists>c. char_at s i = Some c"
  by (simp add: char_at_def)

lemma char_at_not_NUL: "char_at s i = Some c \<Longrightarrow> c \<noteq> NUL \<Longrightarrow> i < length s"
  by (auto simp: char_at_def split: if_splits)

lemma char_at_set: "char_at s i = Some c \<Longrightarrow> c \<in> set s \<or> c = NUL"
  by (auto simp: char_at_def split: if_splits)

lemma strncmp_B64: "strncmp (''B64: '' @ tok) B64 4 = 0"
  by (simp add: B64_def eval_nat_numeral)

lemma char_at_B64: "char_at (''B64: '' @ tok) 4 = Some (CHR '' '')"
  by (simp add: char_at_def)

lemma B64_prefix:
  "(strncmp s B64 4 = 0 \<and> char_at s 4 = Some (CHR '' '')) = (take 5 s = ''B64: '')"
proof -
  have a: "(strncmp s B64 4 = 0) = (take 4 s = ''B64:'')"
    using strncmp_0_iff [OF literal_facts(9,10), of s] by (simp add: B64_def)
  show ?thesis
  proof (cases "4 < length s")
    case True
    then have "take 5 s = take 4 s @ [s ! 4]"
      using take_Suc_conv_app_nth [of 4 s] by simp
    with True show ?thesis by (auto simp add: a char_at_def)
  next
    case False
    then have "take 5 s = s" "take 4 s = s" by simp_all
    with False show ?thesis by (auto simp add: a char_at_def NUL_def)
  qed
qed

section \<open>The character tests and the tables\<close>

text \<open>
  Each test of the source is compared with the class of the specification on all 256
  characters.
\<close>

lemma digit_range: "\<forall>c. (48 \<le> code c \<and> code c < 58) = spec_digit c"
  by code_simp

lemma digit_spec: "(\<not> (48 \<le> code c \<and> code c < 58) \<or> code c = 32) = (\<not> spec_digit c)"
  using digit_range [rule_format, of c] by auto

lemma data_char_spec:
  "\<forall>c. data_char c = (spec_data_char c \<or> c = CHR '':'' \<or> c = CHR '';'')"
  by code_simp

lemma lookup_table: "\<forall>c. (lookup table c = Some True) = spec_data_char c"
  by code_simp

lemma b64_char_alphabet: "\<forall>c. b64_char c = spec_base64_alphabet c"
  by code_simp

lemma b64_char_eq_alphabet: "\<forall>c. b64_char_eq c = (spec_base64_alphabet c \<or> c = CHR ''='')"
  by code_simp

lemma lookup_tableBase64:
  "\<forall>c. (lookup tableBase64 c = Some True) = spec_base64_alphabet c"
  by code_simp

lemma lookup_tableBase64WithEquals:
  "\<forall>c. (lookup tableBase64WithEquals c = Some True) = (spec_base64_alphabet c \<or> c = CHR ''='')"
  by code_simp

lemma lookup_tableBase64_equals: "lookup tableBase64 (CHR ''='') = Some False"
  by code_simp

lemma table_lengths:
  "length table = 128" "length tableBase64 = 128" "length tableBase64WithEquals = 128"
  by (simp_all add: table_def tableBase64_def tableBase64WithEquals_def entries_def)

lemma lookup_total: "code c < length t \<Longrightarrow> lookup t c \<noteq> None"
  by (simp add: lookup_def)

lemma lookup_Some: "code c < length t \<Longrightarrow> lookup t c = Some (lookup t c = Some True)"
  by (simp add: lookup_def)

text \<open>On ASCII characters the tables answer as the range tests do, but for \<^verbatim>\<open>:\<close> and \<^verbatim>\<open>;\<close>.\<close>

lemma tables_agree:
  "code c < 128 \<Longrightarrow> lookup tableBase64 c = Some (b64_char c)"
  "code c < 128 \<Longrightarrow> lookup tableBase64WithEquals c = Some (b64_char_eq c)"
  "code c < 128 \<Longrightarrow> c \<noteq> CHR '':'' \<Longrightarrow> c \<noteq> CHR '';'' \<Longrightarrow> lookup table c = Some (data_char c)"
proof -
  show "code c < 128 \<Longrightarrow> lookup tableBase64 c = Some (b64_char c)"
    using lookup_Some [of c tableBase64] lookup_tableBase64 b64_char_alphabet
    by (simp add: table_lengths)
  show "code c < 128 \<Longrightarrow> lookup tableBase64WithEquals c = Some (b64_char_eq c)"
    using lookup_Some [of c tableBase64WithEquals] lookup_tableBase64WithEquals
      b64_char_eq_alphabet
    by (simp add: table_lengths)
  show "code c < 128 \<Longrightarrow> c \<noteq> CHR '':'' \<Longrightarrow> c \<noteq> CHR '';'' \<Longrightarrow> lookup table c = Some (data_char c)"
    using lookup_Some [of c table] lookup_table data_char_spec
    by (simp add: table_lengths)
qed

section \<open>The loop of \<^verbatim>\<open>WAITING_VER\<close>\<close>

lemma ver_loop_total: "i \<le> length s \<Longrightarrow> ver_loop s i \<noteq> None"
proof (induction "length s - i" arbitrary: i rule: less_induct)
  case less
  show ?case
  proof (cases "i < length s")
    case True
    then have "ver_loop s (i + 1) \<noteq> None" by (intro less) simp_all
    with True show ?thesis
      by (subst ver_loop.simps) (simp add: char_at_def)
  next
    case False
    with less.prems show ?thesis
      by (subst ver_loop.simps) (simp add: char_at_def)
  qed
qed

lemma ver_loop_result:
  assumes nul: "NUL \<notin> set s"
  shows "i \<le> length s \<Longrightarrow>
    ver_loop s i = (if list_all spec_digit (drop i s) then Some (Some (length s)) else Some None)"
proof (induction "length s - i" arbitrary: i rule: less_induct)
  case less
  show ?case
  proof (cases "i < length s")
    case True
    then have "s ! i \<in> set s" by simp
    with nul have nn: "s ! i \<noteq> NUL" by metis
    have dr: "drop i s = s ! i # drop (Suc i) s"
      using True by (simp add: Cons_nth_drop_Suc)
    have IH: "ver_loop s (i + 1)
        = (if list_all spec_digit (drop (i + 1) s) then Some (Some (length s)) else Some None)"
      using True by (intro less) simp_all
    have "ver_loop s i = (if \<not> spec_digit (s ! i) then Some None else ver_loop s (i + 1))"
      using True nn by (subst ver_loop.simps) (simp only: char_at_def digit_spec, simp)
    with IH show ?thesis by (simp add: dr)
  next
    case False
    with less.prems have "i = length s" by simp
    then show ?thesis
      by (subst ver_loop.simps) (simp add: char_at_def)
  qed
qed

lemma waiting_ver_part_total:
  assumes "strncmp s VERSION 7 = 0"
  shows "(do {
            c \<leftarrow> char_at s 7;
            if c \<noteq> CHR '' '' then Some (MESSAGE_INVALID, INIT)
            else do {
              r \<leftarrow> ver_loop s 8;
              case r of
                None \<Rightarrow> Some (MESSAGE_INVALID, INIT)
              | Some i \<Rightarrow> Some (MESSAGE_VALID, CONNECTED)
            }
          }) \<noteq> None"
proof -
  have 7: "7 \<le> length s"
    using assms literal_facts(1,2) by (rule strncmp_length [rotated 2])
  then obtain c where c: "char_at s 7 = Some c" using char_at_Some by blast
  show ?thesis
  proof (cases "c = CHR '' ''")
    case True
    then have "c \<noteq> NUL" by (simp add: NUL_def)
    with c have "7 < length s" by (rule char_at_not_NUL)
    then have "ver_loop s 8 \<noteq> None" by (intro ver_loop_total) simp
    with c True show ?thesis by (auto split: option.splits)
  next
    case False
    with c show ?thesis by simp
  qed
qed

section \<open>The loop and the end of \<^verbatim>\<open>WAITING_DATA\<close>\<close>

lemma data_loop_cong:
  assumes "\<And>c. c \<in> set s \<Longrightarrow> ok1 c = ok2 c"
  shows "data_loop ok1 s i = data_loop ok2 s i"
proof (induction "length s - i" arbitrary: i rule: less_induct)
  case less
  show ?case
  proof (cases "i < length s")
    case True
    then have "s ! i \<in> set s" by simp
    then have o: "ok1 (s ! i) = ok2 (s ! i)" by (rule assms)
    have "data_loop ok1 s (i + 1) = data_loop ok2 s (i + 1)"
      using True by (intro less) simp
    with True o show ?thesis
      by (subst data_loop.simps, subst (2) data_loop.simps)
         (simp add: char_at_def split: option.split)
  next
    case False
    then show ?thesis
      by (subst data_loop.simps, subst (2) data_loop.simps) (simp add: char_at_def)
  qed
qed

lemma data_reply_cong:
  assumes "\<And>c. c \<in> set s \<Longrightarrow> ok1 c = ok2 c"
  shows "data_reply ok1 s cmd n = data_reply ok2 s cmd n"
  by (simp add: data_reply_def data_loop_cong [of s ok1 ok2, OF assms] cong: if_cong)

lemma data_loop_total:
  assumes "\<And>c. c \<in> set s \<Longrightarrow> ok c \<noteq> None"
  shows "i \<le> length s \<Longrightarrow>
    \<exists>r. data_loop ok s i = Some r \<and> (\<forall>j. r = Some j \<longrightarrow> j \<le> length s)"
proof (induction "length s - i" arbitrary: i rule: less_induct)
  case less
  show ?case
  proof (cases "i < length s")
    case True
    then have "s ! i \<in> set s" by simp
    then obtain b where b: "ok (s ! i) = Some b" using assms by blast
    have "\<exists>r. data_loop ok s (i + 1) = Some r \<and> (\<forall>j. r = Some j \<longrightarrow> j \<le> length s)"
      using True by (intro less) simp_all
    with True b less.prems show ?thesis
      by (subst data_loop.simps) (simp add: char_at_def)
  next
    case False
    with less.prems show ?thesis
      by (subst data_loop.simps) (simp add: char_at_def)
  qed
qed

lemma data_end_total: "j \<le> length s \<Longrightarrow> data_end s cmd j \<noteq> None"
  by (auto simp: data_end_def char_at_def)

lemma data_reply_total:
  assumes ok: "\<And>c. c \<in> set s \<Longrightarrow> ok c \<noteq> None" and n: "n \<le> length s"
  shows "data_reply ok s cmd n \<noteq> None"
proof -
  from n obtain c where c: "char_at s n = Some c" using char_at_Some by blast
  show ?thesis
  proof (cases "c = CHR '' ''")
    case True
    then have "c \<noteq> NUL" by (simp add: NUL_def)
    with c have "n + 1 \<le> length s" using char_at_not_NUL by fastforce
    from data_loop_total [of s ok "n + 1", OF ok this]
    obtain r where r: "data_loop ok s (n + 1) = Some r" "\<forall>j. r = Some j \<longrightarrow> j \<le> length s"
      by blast
    then show ?thesis
      using c True data_end_total [of _ s cmd]
      by (cases r) (simp_all add: data_reply_def)
  next
    case False
    with c show ?thesis by (simp add: data_reply_def)
  qed
qed

lemma data_loop_end_valid:
  assumes ok: "\<And>c. (ok c = Some True) = P c"
    and sp: "\<not> P (CHR '' '')"
    and cmd: "NUL \<notin> set cmd"
  shows "NUL \<notin> set tok \<Longrightarrow>
    (\<exists>j. data_loop ok (pre @ tok @ CHR '' '' # cmd) (length pre) = Some (Some j)
        \<and> data_end (pre @ tok @ CHR '' '' # cmd) cmd j = Some (MESSAGE_VALID, CONNECTED))
      = list_all P tok"
proof (induction tok arbitrary: pre)
  case Nil
  let ?s = "pre @ CHR '' '' # cmd"
  have at: "char_at ?s (length pre) = Some (CHR '' '')"
    by (simp add: char_at_def)
  then have "data_loop ok ?s (length pre) = Some (Some (length pre))"
    by (subst data_loop.simps) simp
  moreover have "data_end ?s cmd (length pre) = Some (MESSAGE_VALID, CONNECTED)"
    using at by (simp add: data_end_def strcmp_same NUL_def)
  ultimately show ?case by simp
next
  case (Cons c tok)
  let ?s = "pre @ c # tok @ CHR '' '' # cmd"
  have s: "pre @ (c # tok) @ CHR '' '' # cmd = ?s" "(pre @ [c]) @ tok @ CHR '' '' # cmd = ?s"
    by simp_all
  have at: "char_at ?s (length pre) = Some c"
    by (simp add: char_at_def)
  have cn: "c \<noteq> NUL" and tn: "NUL \<notin> set tok" using Cons.prems by auto
  note IH = Cons.IH [of "pre @ [c]", OF tn, unfolded s]
  show ?case
    unfolding s
  proof (cases "c = CHR '' ''")
    case True
    have "data_loop ok ?s (length pre) = Some (Some (length pre))"
      using at True by (subst data_loop.simps) simp
    moreover have "strcmp (tok @ CHR '' '' # cmd) cmd \<noteq> 0"
      using tn cmd by (rule strcmp_longer)
    then have "data_end ?s cmd (length pre) = Some (MESSAGE_INVALID, INIT)"
      using at by (simp add: data_end_def)
    ultimately show "(\<exists>j. data_loop ok ?s (length pre) = Some (Some j)
        \<and> data_end ?s cmd j = Some (MESSAGE_VALID, CONNECTED)) = list_all P (c # tok)"
      using True sp by simp
  next
    case False
    have step: "data_loop ok ?s (length pre) =
        (case ok c of None \<Rightarrow> None
         | Some b \<Rightarrow> if \<not> b then Some None else data_loop ok ?s (length (pre @ [c])))"
      using at False cn by (subst data_loop.simps) (simp split: option.split)
    show "(\<exists>j. data_loop ok ?s (length pre) = Some (Some j)
        \<and> data_end ?s cmd j = Some (MESSAGE_VALID, CONNECTED)) = list_all P (c # tok)"
    proof (cases "ok c")
      case None
      then have "\<not> P c" using ok [of c] by simp
      with None show ?thesis by (simp add: step)
    next
      case (Some b)
      then have Pb: "P c = b" using ok [of c] by auto
      show ?thesis
      proof (cases b)
        case True
        with Some have "data_loop ok ?s (length pre) = data_loop ok ?s (length (pre @ [c]))"
          by (simp add: step)
        then show ?thesis using IH Pb True by simp
      next
        case False
        with Some Pb show ?thesis by (simp add: step)
      qed
    qed
  qed
qed

lemma data_reply_valid:
  assumes ok: "\<And>c. (ok c = Some True) = P c"
    and sp: "\<not> P (CHR '' '')"
    and cmd: "NUL \<notin> set cmd" "length cmd = n"
    and tok: "NUL \<notin> set tok"
  shows "(data_reply ok (cmd @ CHR '' '' # tok @ CHR '' '' # cmd) cmd n
            = Some (MESSAGE_VALID, CONNECTED)) = list_all P tok"
proof -
  let ?s = "cmd @ CHR '' '' # tok @ CHR '' '' # cmd"
  have at: "char_at ?s n = Some (CHR '' '')"
    using cmd(2) by (simp add: char_at_def nth_append)
  have s: "?s = (cmd @ '' '') @ tok @ CHR '' '' # cmd" by simp
  have n: "n + 1 = length (cmd @ '' '')" using cmd(2) by simp
  have "(data_reply ok ?s cmd n = Some (MESSAGE_VALID, CONNECTED))
      = (\<exists>j. data_loop ok ?s (n + 1) = Some (Some j)
           \<and> data_end ?s cmd j = Some (MESSAGE_VALID, CONNECTED))"
    using at by (auto simp add: data_reply_def split: bind_splits option.splits)
  also have "\<dots> = list_all P tok"
    unfolding n
    by (subst (1 2) s)
       (rule data_loop_end_valid [where ok = ok and P = P and pre = "cmd @ '' ''",
          OF ok sp cmd(1) tok])
  finally show ?thesis .
qed

section \<open>The loop and the end of \<^verbatim>\<open>WAITING_B64_DATA\<close>\<close>

lemma b64_loop_result:
  assumes nul: "NUL \<notin> set s" and ok: "\<And>c. (ok c = Some True) = P c"
  shows "i + 2 \<le> length s \<Longrightarrow>
    (b64_loop ok s i = Some (Some j))
      = (j = length s - 2 \<and> list_all P (take (length s - 2 - i) (drop i s)))"
proof (induction "length s - 2 - i" arbitrary: i)
  case 0
  then have "i + 2 = length s" by simp
  then have "b64_loop ok s i = Some (Some i)"
    by (subst b64_loop.simps) (simp add: char_at_def)
  with 0 show ?case by auto
next
  case (Suc n)
  then have lt: "i + 2 < length s" by simp
  then have "s ! (i + 2) \<in> set s" by simp
  with nul have nn: "s ! (i + 2) \<noteq> NUL" by metis
  have dr: "drop i s = s ! i # drop (Suc i) s"
    using lt by (simp add: Cons_nth_drop_Suc)
  have tk: "length s - 2 - i = Suc (length s - 2 - Suc i)"
    using lt by simp
  have tkdr: "take (length s - 2 - i) (drop i s)
      = s ! i # take (length s - 2 - Suc i) (drop (Suc i) s)"
    by (subst dr, subst tk) simp
  have step: "b64_loop ok s i =
      (case ok (s ! i) of None \<Rightarrow> None
       | Some b \<Rightarrow> if \<not> b then Some None else b64_loop ok s (i + 1))"
    using lt nn by (subst b64_loop.simps) (simp add: char_at_def)
  have IH: "(b64_loop ok s (Suc i) = Some (Some j))
      = (j = length s - 2 \<and> list_all P (take (length s - 2 - Suc i) (drop (Suc i) s)))"
    using Suc.hyps(1) [of "Suc i"] Suc.hyps(2) lt by simp
  show ?case
  proof (cases "ok (s ! i)")
    case None
    with ok [of "s ! i"] have "\<not> P (s ! i)" by simp
    with None show ?thesis unfolding tkdr by (simp add: step)
  next
    case (Some b)
    with ok [of "s ! i"] have "P (s ! i) = b" by auto
    with Some IH show ?thesis unfolding tkdr by (simp add: step)
  qed
qed

lemma b64_end_valid:
  assumes ok: "\<And>c. (ok c = Some True) = P c"
    and ok_eq: "\<And>c. (ok_eq c = Some True) = (P c \<or> c = CHR ''='')"
    and eq: "ok (CHR ''='') = Some False"
    and i: "i + 1 < length s"
  shows "(b64_end ok ok_eq s i len = Some (MESSAGE_VALID, CONNECTED))
    = (((P (s ! i) \<and> (P (s ! (i + 1)) \<or> s ! (i + 1) = CHR ''=''))
        \<or> (s ! i = CHR ''='' \<and> s ! (i + 1) = CHR ''='')) \<and> len mod 4 = 0)"
proof -
  have nP: "\<not> P (CHR ''='')" using ok [of "CHR ''=''"] eq by simp
  have r0: "char_at s i = Some (s ! i)" and r1: "char_at s (Suc i) = Some (s ! Suc i)"
    using i by (simp_all add: char_at_in)
  show ?thesis
  proof (cases "ok (s ! i)")
    case None
    then have "\<not> P (s ! i)" "s ! i \<noteq> CHR ''=''" using ok [of "s ! i"] eq by auto
    with None show ?thesis by (simp add: b64_end_def r0)
  next
    case (Some b)
    show ?thesis
    proof (cases b)
      case True
      with Some have P: "P (s ! i)" using ok by simp
      then have ne: "s ! i \<noteq> CHR ''=''" using nP by auto
      show ?thesis
      proof (cases "ok_eq (s ! (i + 1))")
        case None
        then have "\<not> (P (s ! (i + 1)) \<or> s ! (i + 1) = CHR ''='')"
          using ok_eq [of "s ! (i + 1)"] by simp
        with None Some True P ne show ?thesis by (simp add: b64_end_def r0 r1)
      next
        case (Some b1)
        then have "(P (s ! (i + 1)) \<or> s ! (i + 1) = CHR ''='') = b1"
          using ok_eq [of "s ! (i + 1)"] by auto
        with Some \<open>ok (s ! i) = Some b\<close> True P ne show ?thesis
          by (auto simp add: b64_end_def r0 r1)
      qed
    next
      case False
      with Some have nPi: "\<not> P (s ! i)" using ok [of "s ! i"] by simp
      with Some False show ?thesis
        by (auto simp add: b64_end_def r0 r1 code_61)
    qed
  qed
qed

lemma shaped_snoc2:
  "spec_base64_token (body @ [c, d])
    = (list_all spec_base64_alphabet body
       \<and> ((spec_base64_alphabet c \<and> (spec_base64_alphabet d \<or> d = CHR ''=''))
          \<or> (c = CHR ''='' \<and> d = CHR ''=''))
       \<and> (length body + 2) mod 4 = 0)"
proof -
  have nP: "\<not> spec_base64_alphabet (CHR ''='')" by (simp add: spec_base64_alphabet_def)
  have p0: "spec_padded 0 (body @ [c, d])
      = (list_all spec_base64_alphabet body \<and> spec_base64_alphabet c \<and> spec_base64_alphabet d)"
    by (simp add: spec_padded_def)
  have p1: "spec_padded 1 (body @ [c, d])
      = (list_all spec_base64_alphabet body \<and> spec_base64_alphabet c \<and> d = CHR ''='')"
    by (simp add: spec_padded_def)
  have p2: "spec_padded 2 (body @ [c, d])
      = (list_all spec_base64_alphabet body \<and> c = CHR ''='' \<and> d = CHR ''='')"
    by (simp add: spec_padded_def numeral_2_eq_2)
  show ?thesis
    unfolding spec_base64_token_def p0 p1 p2 using nP by auto
qed

lemma shaped_short: "length tok < 2 \<Longrightarrow> \<not> spec_base64_token tok"
  by (cases tok) (auto simp: spec_base64_token_def)

lemma split_last2:
  assumes "2 \<le> length (tok :: 'a list)"
  obtains body c d where "tok = body @ [c, d]"
proof -
  from assms obtain ys d where t: "tok = ys @ [d]"
    by (cases tok rule: rev_cases) auto
  with assms obtain body c where "ys = body @ [c]"
    by (cases ys rule: rev_cases) auto
  with t that show thesis by simp
qed

lemma b64_block:
  assumes ok: "\<And>c. (ok c = Some True) = spec_base64_alphabet c"
    and ok_eq: "\<And>c. (ok_eq c = Some True) = (spec_base64_alphabet c \<or> c = CHR ''='')"
    and eq: "ok (CHR ''='') = Some False"
    and pre: "NUL \<notin> set pre" "length pre = n"
    and tok: "NUL \<notin> set tok"
    and f: "f (n + length tok - 2) = length tok"
  shows "(do {
            r \<leftarrow> b64_loop ok (pre @ tok) n;
            case r of
              None \<Rightarrow> Some (MESSAGE_INVALID, INIT)
            | Some i \<Rightarrow> b64_end ok ok_eq (pre @ tok) i (f i)
          } = Some (MESSAGE_VALID, CONNECTED)) = spec_base64_token tok"
proof (cases "length tok < 2")
  case True
  then have "char_at (pre @ tok) (n + 2) = None"
    using pre(2) by (simp add: char_at_def)
  then have "b64_loop ok (pre @ tok) n = None"
    by (subst b64_loop.simps) simp
  with True show ?thesis by (simp add: shaped_short)
next
  case False
  then have "2 \<le> length tok" by simp
  then obtain body c d where t: "tok = body @ [c, d]" by (rule split_last2)
  let ?s = "pre @ tok"
  let ?j = "n + length body"
  have nul: "NUL \<notin> set ?s" using pre(1) tok by simp
  have loop: "(b64_loop ok ?s n = Some (Some j)) = (j = ?j \<and> list_all spec_base64_alphabet body)" for j
    using b64_loop_result [of ?s ok spec_base64_alphabet n j, OF nul ok] pre(2) t by simp
  have at: "?s ! ?j = c" "?s ! (?j + 1) = d"
    using pre(2) t by (simp_all add: nth_append)
  have "?j + 1 < length ?s" using pre(2) t by simp
  note fin = b64_end_valid [where len = "f ?j", OF ok ok_eq eq this]
  have fj: "f ?j = length body + 2" using f t by simp
  have e: "(b64_end ok ok_eq ?s ?j (f ?j) = Some (MESSAGE_VALID, CONNECTED))
      = (((spec_base64_alphabet c \<and> (spec_base64_alphabet d \<or> d = CHR ''=''))
          \<or> (c = CHR ''='' \<and> d = CHR ''='')) \<and> (length body + 2) mod 4 = 0)"
    using fin unfolding at fj .
  show ?thesis
  proof (cases "b64_loop ok ?s n")
    case None
    with loop [of ?j] show ?thesis unfolding t shaped_snoc2 by simp
  next
    case (Some r)
    show ?thesis
    proof (cases r)
      case None
      with Some loop [of ?j] show ?thesis unfolding t shaped_snoc2 by simp
    next
      case (Some j)
      with \<open>b64_loop ok ?s n = Some r\<close> loop [of j] have j: "j = ?j" and body: "list_all spec_base64_alphabet body"
        by simp_all
      have "(b64_end ok ok_eq ?s j (f j) = Some (MESSAGE_VALID, CONNECTED)) = spec_base64_token tok"
        unfolding j e unfolding t shaped_snoc2 using body by simp
      with Some \<open>b64_loop ok ?s n = Some r\<close> show ?thesis by simp
    qed
  qed
qed

lemma b64_loop_cong:
  assumes "\<And>c. c \<in> set s \<Longrightarrow> ok1 c = ok2 c"
  shows "b64_loop ok1 s i = b64_loop ok2 s i"
proof (induction "length s - i" arbitrary: i rule: less_induct)
  case less
  show ?case
  proof (cases "i + 2 < length s")
    case True
    then have "s ! i \<in> set s" by simp
    then have o: "ok1 (s ! i) = ok2 (s ! i)" by (rule assms)
    have "b64_loop ok1 s (i + 1) = b64_loop ok2 s (i + 1)"
      using True by (intro less) simp
    with True o show ?thesis
      by (subst b64_loop.simps, subst (2) b64_loop.simps)
         (simp add: char_at_def split: option.split)
  next
    case False
    then show ?thesis
      by (subst b64_loop.simps, subst (2) b64_loop.simps) (simp add: char_at_def)
  qed
qed

lemma b64_end_cong:
  assumes "\<And>c. c \<in> set s \<or> c = NUL \<Longrightarrow> ok1 c = ok2 c"
    and "\<And>c. c \<in> set s \<or> c = NUL \<Longrightarrow> oke1 c = oke2 c"
  shows "b64_end ok1 oke1 s i len = b64_end ok2 oke2 s i len"
proof (cases "char_at s i")
  case None
  then show ?thesis by (simp add: b64_end_def)
next
  case (Some c)
  then have c: "ok1 c = ok2 c" using char_at_set assms(1) by blast
  show ?thesis
  proof (cases "char_at s (i + 1)")
    case None
    with Some c show ?thesis by (simp add: b64_end_def split: bind_split)
  next
    case d: (Some d)
    then have "oke1 d = oke2 d" using char_at_set assms(2) by blast
    with Some c d show ?thesis by (simp add: b64_end_def split: bind_split)
  qed
qed

lemma b64_loop_short: "length s < i + 2 \<Longrightarrow> b64_loop ok s i = None"
  by (subst b64_loop.simps) (simp add: char_at_def)

lemma b64_loop_total:
  assumes nul: "NUL \<notin> set s" and ok: "\<And>c. c \<in> set s \<Longrightarrow> ok c \<noteq> None"
  shows "i + 2 \<le> length s \<Longrightarrow>
    \<exists>r. b64_loop ok s i = Some r \<and> (\<forall>j. r = Some j \<longrightarrow> j + 2 = length s)"
proof (induction "length s - i" arbitrary: i rule: less_induct)
  case less
  show ?case
  proof (cases "i + 2 < length s")
    case True
    then have "s ! (i + 2) \<in> set s" by simp
    with nul have nn: "s ! (i + 2) \<noteq> NUL" by metis
    from True have "s ! i \<in> set s" by simp
    then obtain b where b: "ok (s ! i) = Some b" using ok by blast
    have "\<exists>r. b64_loop ok s (i + 1) = Some r \<and> (\<forall>j. r = Some j \<longrightarrow> j + 2 = length s)"
      using True by (intro less) simp_all
    with True b nn show ?thesis
      by (subst b64_loop.simps) (simp add: char_at_def)
  next
    case False
    with less.prems have "i + 2 = length s" by simp
    then show ?thesis
      by (subst b64_loop.simps) (simp add: char_at_def)
  qed
qed

lemma b64_end_total:
  assumes ok: "\<And>c. c \<in> set s \<or> c = NUL \<Longrightarrow> ok c \<noteq> None"
    and ok_eq: "\<And>c. c \<in> set s \<or> c = NUL \<Longrightarrow> ok_eq c \<noteq> None"
    and i: "i + 1 \<le> length s"
  shows "b64_end ok ok_eq s i len \<noteq> None"
proof -
  from i obtain c where c: "char_at s i = Some c"
    using char_at_Some [of i s] by auto
  from i obtain d where d: "char_at s (i + 1) = Some d"
    using char_at_Some [of "i + 1" s] by auto
  from c obtain b where b: "ok c = Some b" using ok char_at_set by blast
  from d obtain b1 where b1: "ok_eq d = Some b1" using ok_eq char_at_set by blast
  show ?thesis
    using c d b b1 by (simp add: b64_end_def)
qed

lemma waiting_b64_part_None_iff:
  assumes nul: "NUL \<notin> set s"
    and ok: "\<And>c. c \<in> set s \<or> c = NUL \<Longrightarrow> ok c \<noteq> None"
    and ok_eq: "\<And>c. c \<in> set s \<or> c = NUL \<Longrightarrow> ok_eq c \<noteq> None"
  shows "((do {
            r \<leftarrow> b64_loop ok s 5;
            case r of
              None \<Rightarrow> Some (MESSAGE_INVALID, INIT)
            | Some i \<Rightarrow> b64_end ok ok_eq s i (f i)
          }) = None) = (length s < 7)"
proof (cases "length s < 7")
  case True
  then have "b64_loop ok s 5 = None" by (intro b64_loop_short) simp
  with True show ?thesis by simp
next
  case False
  then have "5 + 2 \<le> length s" by simp
  from b64_loop_total [of s ok 5, OF nul ok this]
  obtain r where r: "b64_loop ok s 5 = Some r" "\<forall>j. r = Some j \<longrightarrow> j + 2 = length s"
    by blast
  show ?thesis
  proof (cases r)
    case None
    with r False show ?thesis by simp
  next
    case (Some j)
    with r have "j + 1 \<le> length s" by simp
    from b64_end_total [of s ok ok_eq j "f j", OF ok ok_eq this] Some r False
    show ?thesis by simp
  qed
qed

section \<open>The two validators, phase by phase\<close>

lemma connected_agree:
  "validate_message CONNECTED msg = validate_message_part000 CONNECTED msg"
proof -
  let ?t = "takeWhile (\<lambda>c. c \<noteq> NUL) (text_message msg)"
  consider "?t = GET_VER" | "?t = GET_DATA" | "?t = GET_FILE" | "?t = GET_COMMAND"
    | "?t = GET_B64" | "?t = DISCONNECT"
    | "?t \<noteq> GET_VER" "?t \<noteq> GET_DATA" "?t \<noteq> GET_FILE" "?t \<noteq> GET_COMMAND"
      "?t \<noteq> GET_B64" "?t \<noteq> DISCONNECT"
    by blast
  then show ?thesis
    using commands_differ
    by cases
      (simp_all add: validate_message_def validate_message_part000_def strcmp_0_iff
        takeWhile_literals)
qed

lemma waiting_data_agree:
  assumes ascii: "list_all (\<lambda>c. code c < 128) (text_message msg)"
    and data: "CHR '':'' \<notin> set (text_message msg)" "CHR '';'' \<notin> set (text_message msg)"
  shows "validate_message WAITING_DATA msg = validate_message_part000 WAITING_DATA msg"
proof -
  have "(Some \<circ> data_char) c = lookup table c" if "c \<in> set (text_message msg)" for c
  proof -
    have "code c < 128" using that ascii by (simp add: list_all_iff)
    moreover have "c \<noteq> CHR '':''" "c \<noteq> CHR '';''" using that data by auto
    ultimately show ?thesis by (simp add: tables_agree(3))
  qed
  then have "data_reply (Some \<circ> data_char) (text_message msg) cmd n
      = data_reply (lookup table) (text_message msg) cmd n" for cmd n
    by (rule data_reply_cong)
  then show ?thesis
    unfolding validate_message_def validate_message_part000_def by simp
qed

lemma waiting_b64_agree:
  assumes ascii: "list_all (\<lambda>c. code c < 128) (text_message msg)"
  shows "validate_message WAITING_B64_DATA msg = validate_message_part000 WAITING_B64_DATA msg"
proof -
  have a: "code c < 128" if "c \<in> set (text_message msg) \<or> c = NUL" for c
    using that ascii code_NUL [of NUL] by (auto simp: list_all_iff)
  have 1: "(Some \<circ> b64_char) c = lookup tableBase64 c"
    if "c \<in> set (text_message msg) \<or> c = NUL" for c
    using a [OF that] by (simp add: tables_agree(1))
  have 2: "(Some \<circ> b64_char_eq) c = lookup tableBase64WithEquals c"
    if "c \<in> set (text_message msg) \<or> c = NUL" for c
    using a [OF that] by (simp add: tables_agree(2))
  have l: "b64_loop (Some \<circ> b64_char) (text_message msg) 5
      = b64_loop (lookup tableBase64) (text_message msg) 5"
    using 1 by (intro b64_loop_cong) simp
  have e: "b64_end (Some \<circ> b64_char) (Some \<circ> b64_char_eq) (text_message msg) i len
      = b64_end (lookup tableBase64) (lookup tableBase64WithEquals) (text_message msg) i len"
    for i len
    using 1 2 by (rule b64_end_cong)
  have f: "i + 2 - 5 = i - 3" for i :: nat by simp
  show ?thesis
    by (simp add: validate_message_def validate_message_part000_def l e f cong: if_cong)
qed

text \<open>
  In \<^verbatim>\<open>WAITING_B64_DATA\<close> a verdict comes with its state: \<^verbatim>\<open>MESSAGE_VALID\<close> with
  \<^verbatim>\<open>CONNECTED\<close>, \<^verbatim>\<open>MESSAGE_INVALID\<close> with \<^verbatim>\<open>INIT\<close>.
\<close>

lemma b64_end_form:
  "b64_end ok ok_eq s i len = Some r \<Longrightarrow>
     r = (MESSAGE_VALID, CONNECTED) \<or> r = (MESSAGE_INVALID, INIT)"
  by (auto simp: b64_end_def split: bind_splits if_splits)

lemma waiting_b64_form:
  "validate_message WAITING_B64_DATA msg = Some r \<Longrightarrow>
     r = (MESSAGE_VALID, CONNECTED) \<or> r = (MESSAGE_INVALID, INIT)"
  by (auto simp: validate_message_def split: if_splits bind_splits option.splits
      dest: b64_end_form)

lemma waiting_b64_part000_form:
  "validate_message_part000 WAITING_B64_DATA msg = Some r \<Longrightarrow>
     r = (MESSAGE_VALID, CONNECTED) \<or> r = (MESSAGE_INVALID, INIT)"
  by (auto simp: validate_message_part000_def split: if_splits bind_splits option.splits
      dest: b64_end_form)

lemma waiting_b64_valid_connected:
  assumes "NUL \<notin> set tok"
  shows "(validate_message WAITING_B64_DATA
            \<lparr>direction = B_TO_A, text_message = ''B64: '' @ tok\<rparr>
            = Some (MESSAGE_VALID, CONNECTED)) = spec_base64_token tok
     \<and> (validate_message_part000 WAITING_B64_DATA
            \<lparr>direction = B_TO_A, text_message = ''B64: '' @ tok\<rparr>
            = Some (MESSAGE_VALID, CONNECTED)) = spec_base64_token tok"
proof -
  have pre: "NUL \<notin> set ''B64: ''" "length ''B64: '' = 5"
    by (simp_all add: NUL_def)
  have 1: "(Some \<circ> b64_char) c = Some True \<longleftrightarrow> spec_base64_alphabet c" for c
    using b64_char_alphabet by simp
  have 2: "(Some \<circ> b64_char_eq) c = Some True \<longleftrightarrow> (spec_base64_alphabet c \<or> c = CHR ''='')"
    for c
    using b64_char_eq_alphabet by simp
  have 3: "(Some \<circ> b64_char) (CHR ''='') = Some False"
    using b64_char_alphabet by (simp add: spec_base64_alphabet_def)
  have "(validate_message WAITING_B64_DATA
            \<lparr>direction = B_TO_A, text_message = ''B64: '' @ tok\<rparr>
            = Some (MESSAGE_VALID, CONNECTED)) = spec_base64_token tok"
    using b64_block [of "Some \<circ> b64_char" "Some \<circ> b64_char_eq" "''B64: ''" 5 tok
        "\<lambda>i. i - 3", OF 1 2 3 pre assms] strncmp_B64 [of tok] char_at_B64 [of tok]
    by (simp add: validate_message_def)
  moreover have "(validate_message_part000 WAITING_B64_DATA
            \<lparr>direction = B_TO_A, text_message = ''B64: '' @ tok\<rparr>
            = Some (MESSAGE_VALID, CONNECTED)) = spec_base64_token tok"
    using b64_block [of "lookup tableBase64" "lookup tableBase64WithEquals" "''B64: ''" 5 tok
        "\<lambda>i. i + 2 - 5", OF lookup_tableBase64 [rule_format]
        lookup_tableBase64WithEquals [rule_format] lookup_tableBase64_equals pre assms]
      strncmp_B64 [of tok] char_at_B64 [of tok]
    by (simp add: validate_message_part000_def)
  ultimately show ?thesis by simp
qed

section \<open>What the validators accept, for every message\<close>

text \<open>
  The theorems of this section hold for every text, under the hypotheses they state: that
  the text holds no null character (a C text ends at its first null) and, where the tables
  of \<^verbatim>\<open>part_000\<close> are read, that its characters are ASCII.
\<close>

text \<open>
  When the validators give no verdict: only in \<^verbatim>\<open>WAITING_B64_DATA\<close>, on a B-to-A text
  made of \<^verbatim>\<open>B64: \<close> and fewer than two more characters, where the loop reads past the
  terminating null (see C2). On every other state and text \<^verbatim>\<open>splpv1.c\<close> reads inside the
  text and returns a verdict.
\<close>

theorem no_verdict_iff:
  assumes nul: "NUL \<notin> set (text_message msg)"
  shows "(validate_message state msg = None)
    = (state = WAITING_B64_DATA \<and> direction msg = B_TO_A
       \<and> take 5 (text_message msg) = ''B64: '' \<and> length (text_message msg) < 7)"
proof (cases state)
  case INIT
  then show ?thesis by (simp add: validate_message_def)
next
  case CONNECTING
  then show ?thesis by (simp add: validate_message_def)
next
  case CONNECTED
  then show ?thesis by (simp add: validate_message_def)
next
  case WAITING_VER
  then show ?thesis
    using waiting_ver_part_total [of "text_message msg"] by (simp add: validate_message_def)
next
  case WAITING_DATA
  have "data_reply (Some \<circ> data_char) (text_message msg) cmd n \<noteq> None"
    if "NUL \<notin> set cmd" "length cmd = n" "strncmp (text_message msg) cmd n = 0" for cmd n
    using that by (intro data_reply_total strncmp_length [of cmd]) simp_all
  from this [OF literal_facts(3,4)] this [OF literal_facts(5,6)] this [OF literal_facts(7,8)]
  show ?thesis
    using WAITING_DATA by (simp add: validate_message_def)
next
  case WAITING_B64_DATA
  let ?s = "text_message msg"
  show ?thesis
  proof (cases "direction msg = B_TO_A \<and> take 5 ?s = ''B64: ''")
    case True
    then have "strncmp ?s B64 4 = 0" "char_at ?s 4 = Some (CHR '' '')"
      using B64_prefix [of ?s] by simp_all
    then show ?thesis
      using True WAITING_B64_DATA
        waiting_b64_part_None_iff [of ?s "Some \<circ> b64_char" "Some \<circ> b64_char_eq" "\<lambda>i. i - 3",
          OF nul]
      by (simp add: validate_message_def)
  next
    case False
    then have "\<not> (direction msg = B_TO_A \<and> strncmp ?s B64 4 = 0 \<and> char_at ?s 4 = Some (CHR '' ''))"
      using B64_prefix [of ?s] by auto
    moreover have "\<exists>c. char_at ?s 4 = Some c" if "strncmp ?s B64 4 = 0"
      using that literal_facts(9,10) by (intro char_at_Some strncmp_length [of B64]) simp_all
    ultimately show ?thesis
      using False WAITING_B64_DATA by (auto simp add: validate_message_def)
  qed
next
  case DISCONNECTING
  then show ?thesis by (simp add: validate_message_def)
qed

theorem no_verdict_iff_witness:
  "NUL \<notin> set (text_message \<lparr>direction = B_TO_A, text_message = ''B64: A''\<rparr>)
   \<and> validate_message WAITING_B64_DATA \<lparr>direction = B_TO_A, text_message = ''B64: A''\<rparr> = None
   \<and> NUL \<notin> set (text_message \<lparr>direction = B_TO_A, text_message = ''B64: QQ==''\<rparr>)
   \<and> validate_message WAITING_B64_DATA \<lparr>direction = B_TO_A, text_message = ''B64: QQ==''\<rparr> \<noteq> None"
  using no_verdict_iff [of "\<lparr>direction = B_TO_A, text_message = ''B64: A''\<rparr>" WAITING_B64_DATA]
    no_verdict_iff [of "\<lparr>direction = B_TO_A, text_message = ''B64: QQ==''\<rparr>" WAITING_B64_DATA]
  by (simp add: NUL_def)

text \<open>
  The same for \<^verbatim>\<open>part_000\<close> on ASCII texts; a character outside ASCII would be an index
  outside its tables.
\<close>

theorem no_verdict_part000_iff:
  assumes nul: "NUL \<notin> set (text_message msg)"
    and ascii: "list_all (\<lambda>c. code c < 128) (text_message msg)"
  shows "(validate_message_part000 state msg = None)
    = (state = WAITING_B64_DATA \<and> direction msg = B_TO_A
       \<and> take 5 (text_message msg) = ''B64: '' \<and> length (text_message msg) < 7)"
proof (cases state)
  case INIT
  then show ?thesis by (simp add: validate_message_part000_def)
next
  case CONNECTING
  then show ?thesis by (simp add: validate_message_part000_def)
next
  case CONNECTED
  then show ?thesis by (simp add: validate_message_part000_def)
next
  case WAITING_VER
  then show ?thesis
    using waiting_ver_part_total [of "text_message msg"]
    by (simp add: validate_message_part000_def)
next
  case WAITING_DATA
  have t: "lookup table c \<noteq> None" if "c \<in> set (text_message msg)" for c
    using that ascii by (intro lookup_total) (simp add: table_lengths list_all_iff)
  have "data_reply (lookup table) (text_message msg) cmd n \<noteq> None"
    if "NUL \<notin> set cmd" "length cmd = n" "strncmp (text_message msg) cmd n = 0" for cmd n
    using that t by (intro data_reply_total strncmp_length [of cmd]) simp_all
  from this [OF literal_facts(3,4)] this [OF literal_facts(5,6)] this [OF literal_facts(7,8)]
  show ?thesis
    using WAITING_DATA by (simp add: validate_message_part000_def)
next
  case WAITING_B64_DATA
  let ?s = "text_message msg"
  have a: "code c < 128" if "c \<in> set ?s \<or> c = NUL" for c
    using that ascii code_NUL [of NUL] by (auto simp: list_all_iff)
  have t1: "lookup tableBase64 c \<noteq> None" if "c \<in> set ?s \<or> c = NUL" for c
    using a [OF that] by (intro lookup_total) (simp add: table_lengths)
  have t2: "lookup tableBase64WithEquals c \<noteq> None" if "c \<in> set ?s \<or> c = NUL" for c
    using a [OF that] by (intro lookup_total) (simp add: table_lengths)
  show ?thesis
  proof (cases "direction msg = B_TO_A \<and> take 5 ?s = ''B64: ''")
    case True
    then have "strncmp ?s B64 4 = 0" "char_at ?s 4 = Some (CHR '' '')"
      using B64_prefix [of ?s] by simp_all
    then show ?thesis
      using True WAITING_B64_DATA
        waiting_b64_part_None_iff [of ?s "lookup tableBase64" "lookup tableBase64WithEquals"
          "\<lambda>i. i + 2 - 5", OF nul t1 t2]
      by (simp add: validate_message_part000_def)
  next
    case False
    then have "\<not> (direction msg = B_TO_A \<and> strncmp ?s B64 4 = 0 \<and> char_at ?s 4 = Some (CHR '' ''))"
      using B64_prefix [of ?s] by auto
    moreover have "\<exists>c. char_at ?s 4 = Some c" if "strncmp ?s B64 4 = 0"
      using that literal_facts(9,10) by (intro char_at_Some strncmp_length [of B64]) simp_all
    ultimately show ?thesis
      using False WAITING_B64_DATA by (auto simp add: validate_message_part000_def)
  qed
next
  case DISCONNECTING
  then show ?thesis by (simp add: validate_message_part000_def)
qed

theorem no_verdict_part000_iff_witness:
  "NUL \<notin> set (text_message \<lparr>direction = B_TO_A, text_message = ''B64: A''\<rparr>)
   \<and> list_all (\<lambda>c. code c < 128) (text_message \<lparr>direction = B_TO_A, text_message = ''B64: A''\<rparr>)
   \<and> validate_message_part000 WAITING_B64_DATA \<lparr>direction = B_TO_A, text_message = ''B64: A''\<rparr> = None
   \<and> NUL \<notin> set (text_message \<lparr>direction = B_TO_A, text_message = ''B64: QQ==''\<rparr>)
   \<and> list_all (\<lambda>c. code c < 128) (text_message \<lparr>direction = B_TO_A, text_message = ''B64: QQ==''\<rparr>)
   \<and> validate_message_part000 WAITING_B64_DATA \<lparr>direction = B_TO_A, text_message = ''B64: QQ==''\<rparr> \<noteq> None"
proof -
  have a: "list_all (\<lambda>c. code c < 128) (text_message \<lparr>direction = B_TO_A, text_message = ''B64: A''\<rparr>)"
    "list_all (\<lambda>c. code c < 128) (text_message \<lparr>direction = B_TO_A, text_message = ''B64: QQ==''\<rparr>)"
    by code_simp+
  have n: "NUL \<notin> set (text_message \<lparr>direction = B_TO_A, text_message = ''B64: A''\<rparr>)"
    "NUL \<notin> set (text_message \<lparr>direction = B_TO_A, text_message = ''B64: QQ==''\<rparr>)"
    by (simp_all add: NUL_def)
  show ?thesis
    using no_verdict_part000_iff [OF n(1) a(1), of WAITING_B64_DATA]
      no_verdict_part000_iff [OF n(2) a(2), of WAITING_B64_DATA] a n
    by simp
qed

text \<open>
  The grammar of \<^verbatim>\<open>WAITING_VER\<close> in both validators: after \<^verbatim>\<open>VERSION\<close> and the space
  every character is a digit; the digits may be none at all (see C6).
\<close>

theorem version_grammar:
  assumes "NUL \<notin> set ds"
  shows "(validate_message WAITING_VER
            \<lparr>direction = B_TO_A, text_message = ''VERSION '' @ ds\<rparr>
            = Some (MESSAGE_VALID, CONNECTED)) = list_all spec_digit ds
     \<and> (validate_message_part000 WAITING_VER
            \<lparr>direction = B_TO_A, text_message = ''VERSION '' @ ds\<rparr>
            = Some (MESSAGE_VALID, CONNECTED)) = list_all spec_digit ds"
proof -
  let ?s = "''VERSION '' @ ds"
  have nul: "NUL \<notin> set ?s" using assms by (simp add: NUL_def)
  have 1: "strncmp ?s VERSION 7 = 0"
    by (simp add: strncmp_0_iff literal_facts) (simp add: VERSION_def)
  have 2: "char_at ?s 7 = Some (CHR '' '')" by (simp add: char_at_def)
  have 3: "ver_loop ?s 8 = (if list_all spec_digit ds then Some (Some (length ?s)) else Some None)"
    using ver_loop_result [OF nul, of 8] by simp
  show ?thesis
    using 1 2 3 by (simp add: validate_message_def validate_message_part000_def)
qed

theorem version_grammar_witness:
  "NUL \<notin> set ''123'' \<and> list_all spec_digit ''123''
   \<and> validate_message WAITING_VER \<lparr>direction = B_TO_A, text_message = ''VERSION 123''\<rparr> = Some (MESSAGE_VALID, CONNECTED)
   \<and> validate_message_part000 WAITING_VER \<lparr>direction = B_TO_A, text_message = ''VERSION 123''\<rparr> = Some (MESSAGE_VALID, CONNECTED)"
  using version_grammar [of "''123''"]
  by (simp add: NUL_def spec_digit_def)

text \<open>
  The grammar of \<^verbatim>\<open>WAITING_DATA\<close>: a reply made of one of the three commands, a space, a
  token, a space and the same command is valid in \<^verbatim>\<open>part_000\<close> exactly when every
  character of the token is a lowercase letter, a digit or \<^verbatim>\<open>.\<close>, as the specification
  says, and in \<^verbatim>\<open>splpv1.c\<close> exactly when every character is one of those, \<^verbatim>\<open>:\<close> or \<^verbatim>\<open>;\<close>
  (see C4). The token may be empty (see C5).
\<close>

theorem data_token_grammar:
  assumes tok: "NUL \<notin> set tok"
    and cmd: "cmd = GET_DATA \<or> cmd = GET_FILE \<or> cmd = GET_COMMAND"
  shows "(validate_message_part000 WAITING_DATA
            \<lparr>direction = B_TO_A, text_message = cmd @ '' '' @ tok @ '' '' @ cmd\<rparr>
            = Some (MESSAGE_VALID, CONNECTED)) = list_all spec_data_char tok
     \<and> (validate_message WAITING_DATA
            \<lparr>direction = B_TO_A, text_message = cmd @ '' '' @ tok @ '' '' @ cmd\<rparr>
            = Some (MESSAGE_VALID, CONNECTED))
         = list_all (\<lambda>c. spec_data_char c \<or> c = CHR '':'' \<or> c = CHR '';'') tok"
proof -
  let ?P = "\<lambda>c. spec_data_char c \<or> c = CHR '':'' \<or> c = CHR '';''"
  let ?s = "cmd @ CHR '' '' # tok @ CHR '' '' # cmd"
  have s: "cmd @ '' '' @ tok @ '' '' @ cmd = ?s" by simp
  have sp: "\<not> spec_data_char (CHR '' '')" "\<not> ?P (CHR '' '')"
    by (simp_all add: spec_data_char_def)
  have 1: "(lookup table c = Some True) = spec_data_char c" for c
    using lookup_table by simp
  have 2: "((Some \<circ> data_char) c = Some True) = ?P c" for c
    using data_char_spec by simp
  have a: "(data_reply (lookup table) ?s cmd n = Some (MESSAGE_VALID, CONNECTED))
      = list_all spec_data_char tok" if "NUL \<notin> set cmd" "length cmd = n" for n
    using 1 sp(1) that tok by (rule data_reply_valid)
  have b: "(data_reply (Some \<circ> data_char) ?s cmd n = Some (MESSAGE_VALID, CONNECTED))
      = list_all ?P tok" if "NUL \<notin> set cmd" "length cmd = n" for n
    using 2 sp(2) that tok by (rule data_reply_valid [where P = ?P])
  from cmd show ?thesis
    unfolding s
  proof (elim disjE)
    assume c: "cmd = GET_DATA"
    show "(validate_message_part000 WAITING_DATA \<lparr>direction = B_TO_A, text_message = ?s\<rparr>
            = Some (MESSAGE_VALID, CONNECTED)) = list_all spec_data_char tok
     \<and> (validate_message WAITING_DATA \<lparr>direction = B_TO_A, text_message = ?s\<rparr>
            = Some (MESSAGE_VALID, CONNECTED)) = list_all ?P tok"
      using a [of 8] b [of 8] strncmp_commands(1) [of "CHR '' '' # tok @ CHR '' '' # cmd"]
      unfolding c
      by (simp add: validate_message_def validate_message_part000_def literal_facts)
  next
    assume c: "cmd = GET_FILE"
    show "(validate_message_part000 WAITING_DATA \<lparr>direction = B_TO_A, text_message = ?s\<rparr>
            = Some (MESSAGE_VALID, CONNECTED)) = list_all spec_data_char tok
     \<and> (validate_message WAITING_DATA \<lparr>direction = B_TO_A, text_message = ?s\<rparr>
            = Some (MESSAGE_VALID, CONNECTED)) = list_all ?P tok"
      using a [of 8] b [of 8] strncmp_commands(2,3) [of "CHR '' '' # tok @ CHR '' '' # cmd"]
      unfolding c
      by (simp add: validate_message_def validate_message_part000_def literal_facts)
  next
    assume c: "cmd = GET_COMMAND"
    show "(validate_message_part000 WAITING_DATA \<lparr>direction = B_TO_A, text_message = ?s\<rparr>
            = Some (MESSAGE_VALID, CONNECTED)) = list_all spec_data_char tok
     \<and> (validate_message WAITING_DATA \<lparr>direction = B_TO_A, text_message = ?s\<rparr>
            = Some (MESSAGE_VALID, CONNECTED)) = list_all ?P tok"
      using a [of 11] b [of 11] strncmp_commands(4,5,6) [of "CHR '' '' # tok @ CHR '' '' # cmd"]
      unfolding c
      by (simp add: validate_message_def validate_message_part000_def literal_facts)
  qed
qed

theorem data_token_grammar_witness:
  "NUL \<notin> set ''a.1'' \<and> list_all spec_data_char ''a.1''
   \<and> validate_message_part000 WAITING_DATA \<lparr>direction = B_TO_A, text_message = ''GET_DATA a.1 GET_DATA''\<rparr> = Some (MESSAGE_VALID, CONNECTED)
   \<and> validate_message WAITING_DATA \<lparr>direction = B_TO_A, text_message = ''GET_DATA a.1 GET_DATA''\<rparr> = Some (MESSAGE_VALID, CONNECTED)"
  using data_token_grammar [of "''a.1''" GET_DATA]
  by (simp add: NUL_def spec_data_char_def GET_DATA_def)

text \<open>
  Where the two validators agree: on every ASCII text and in every state, but for
  \<^verbatim>\<open>WAITING_VER\<close> with an A-to-B message and \<^verbatim>\<open>WAITING_DATA\<close> with a text that holds \<^verbatim>\<open>:\<close>
  or \<^verbatim>\<open>;\<close> (see C7, C4 and C10). The different order of the tests in \<^verbatim>\<open>CONNECTED\<close> changes
  nothing.
\<close>

theorem validators_agree:
  assumes ascii: "list_all (\<lambda>c. code c < 128) (text_message msg)"
    and ver: "state = WAITING_VER \<longrightarrow> direction msg = B_TO_A"
    and data: "state = WAITING_DATA \<longrightarrow>
      CHR '':'' \<notin> set (text_message msg) \<and> CHR '';'' \<notin> set (text_message msg)"
  shows "validate_message state msg = validate_message_part000 state msg"
proof (cases state)
  case INIT
  then show ?thesis by (simp add: validate_message_def validate_message_part000_def)
next
  case CONNECTING
  then show ?thesis by (simp add: validate_message_def validate_message_part000_def)
next
  case CONNECTED
  then show ?thesis by (simp add: connected_agree)
next
  case WAITING_VER
  with ver show ?thesis by (simp add: validate_message_def validate_message_part000_def)
next
  case WAITING_DATA
  with ascii data show ?thesis by (simp add: waiting_data_agree)
next
  case WAITING_B64_DATA
  with ascii show ?thesis by (simp add: waiting_b64_agree)
next
  case DISCONNECTING
  then show ?thesis by (simp add: validate_message_def validate_message_part000_def)
qed

theorem validators_agree_witness:
  "list_all (\<lambda>c. code c < 128) (text_message \<lparr>direction = B_TO_A, text_message = ''GET_DATA a.1 GET_DATA''\<rparr>)
   \<and> CHR '':'' \<notin> set (text_message \<lparr>direction = B_TO_A, text_message = ''GET_DATA a.1 GET_DATA''\<rparr>)
   \<and> CHR '';'' \<notin> set (text_message \<lparr>direction = B_TO_A, text_message = ''GET_DATA a.1 GET_DATA''\<rparr>)
   \<and> validate_message WAITING_DATA \<lparr>direction = B_TO_A, text_message = ''GET_DATA a.1 GET_DATA''\<rparr> = validate_message_part000 WAITING_DATA \<lparr>direction = B_TO_A, text_message = ''GET_DATA a.1 GET_DATA''\<rparr>
   \<and> list_all (\<lambda>c. code c < 128) (text_message \<lparr>direction = B_TO_A, text_message = ''VERSION 3''\<rparr>)
   \<and> validate_message WAITING_VER \<lparr>direction = B_TO_A, text_message = ''VERSION 3''\<rparr> = validate_message_part000 WAITING_VER \<lparr>direction = B_TO_A, text_message = ''VERSION 3''\<rparr>"
proof -
  have a: "list_all (\<lambda>c. code c < 128) (text_message \<lparr>direction = B_TO_A, text_message = ''GET_DATA a.1 GET_DATA''\<rparr>)"
    "list_all (\<lambda>c. code c < 128) (text_message \<lparr>direction = B_TO_A, text_message = ''VERSION 3''\<rparr>)"
    by code_simp+
  show ?thesis
    using validators_agree [OF a(1), of WAITING_DATA] validators_agree [OF a(2), of WAITING_VER] a
    by simp
qed

text \<open>
  C8: in \<^verbatim>\<open>WaitingBase64\<close> a B-to-A message \<^verbatim>\<open>B64: \<close> followed by a token gets the verdict
  \<^verbatim>\<open>Valid\<close>, whatever the state that comes with it, exactly when the token has the shape the
  specification gives: characters of the base64 alphabet, then at most two \<^verbatim>\<open>=\<close> at the
  very end, and a length that is a positive multiple of 4. This holds for \<^verbatim>\<open>splpv1.c\<close> on
  every token and for \<^verbatim>\<open>part_000\<close> on every ASCII token (a C text holds no null
  character). Moreover a token of two characters or more always gets a verdict, and the
  verdict fixes the state: \<^verbatim>\<open>MESSAGE_VALID\<close> and \<^verbatim>\<open>CONNECTED\<close> when it has the shape,
  \<^verbatim>\<open>MESSAGE_INVALID\<close> and \<^verbatim>\<open>INIT\<close> when it has not. (A token of fewer than two characters
  gets no verdict, see C2.)
\<close>

theorem C8_base64_grammar:
  assumes nul: "NUL \<notin> set tok"
  shows "(\<exists>st. validate_message WAITING_B64_DATA \<lparr>direction = B_TO_A, text_message = ''B64: '' @ tok\<rparr> = Some (MESSAGE_VALID, st))
            = spec_base64_token tok
     \<and> (2 \<le> length tok \<longrightarrow>
          validate_message WAITING_B64_DATA \<lparr>direction = B_TO_A, text_message = ''B64: '' @ tok\<rparr>
            = (if spec_base64_token tok then Some (MESSAGE_VALID, CONNECTED)
               else Some (MESSAGE_INVALID, INIT)))
     \<and> (list_all (\<lambda>c. code c < 128) tok \<longrightarrow>
          (\<exists>st. validate_message_part000 WAITING_B64_DATA \<lparr>direction = B_TO_A, text_message = ''B64: '' @ tok\<rparr> = Some (MESSAGE_VALID, st))
            = spec_base64_token tok
          \<and> (2 \<le> length tok \<longrightarrow>
               validate_message_part000 WAITING_B64_DATA \<lparr>direction = B_TO_A, text_message = ''B64: '' @ tok\<rparr>
                 = (if spec_base64_token tok then Some (MESSAGE_VALID, CONNECTED)
                    else Some (MESSAGE_INVALID, INIT))))"
proof -
  let ?m = "\<lparr>direction = B_TO_A, text_message = ''B64: '' @ tok\<rparr>"
  let ?v1 = "validate_message WAITING_B64_DATA ?m"
  let ?v2 = "validate_message_part000 WAITING_B64_DATA ?m"
  have n: "NUL \<notin> set (text_message ?m)" using nul by (simp add: NUL_def)
  note core = waiting_b64_valid_connected [OF nul]
  have e1: "(\<exists>st. ?v1 = Some (MESSAGE_VALID, st)) = spec_base64_token tok"
    using core waiting_b64_form [of ?m] by auto
  have e2: "(\<exists>st. ?v2 = Some (MESSAGE_VALID, st)) = spec_base64_token tok"
    using core waiting_b64_part000_form [of ?m] by auto
  have r1: "?v1 = (if spec_base64_token tok then Some (MESSAGE_VALID, CONNECTED)
      else Some (MESSAGE_INVALID, INIT))" if "2 \<le> length tok"
  proof -
    have "?v1 \<noteq> None"
      using that no_verdict_iff [OF n, of WAITING_B64_DATA] by simp
    then obtain r where r: "?v1 = Some r" by auto
    then have "r = (MESSAGE_VALID, CONNECTED) \<or> r = (MESSAGE_INVALID, INIT)"
      by (rule waiting_b64_form)
    with r core show ?thesis by auto
  qed
  have r2: "?v2 = (if spec_base64_token tok then Some (MESSAGE_VALID, CONNECTED)
      else Some (MESSAGE_INVALID, INIT))"
    if "2 \<le> length tok" and ascii: "list_all (\<lambda>c. code c < 128) tok"
  proof -
    have a: "list_all (\<lambda>c. code c < 128) (text_message ?m)"
      using ascii by (simp add: code_def)
    have "?v2 \<noteq> None"
      using that(1) no_verdict_part000_iff [OF n a, of WAITING_B64_DATA] by simp
    then obtain r where r: "?v2 = Some r" by auto
    then have "r = (MESSAGE_VALID, CONNECTED) \<or> r = (MESSAGE_INVALID, INIT)"
      by (rule waiting_b64_part000_form)
    with r core show ?thesis by auto
  qed
  show ?thesis using e1 e2 r1 r2 by blast
qed

text \<open>
  The three tokens the claim names: \<^verbatim>\<open>QQ==\<close> and \<^verbatim>\<open>SGVsbG8=\<close> have the shape and are
  valid, \<^verbatim>\<open>QQ=\<close> does not have it and is \<^verbatim>\<open>MESSAGE_INVALID\<close>. Each verdict, with its state,
  is the one the theorem gives.
\<close>

theorem C8_base64_grammar_witness:
  "NUL \<notin> set ''QQ=='' \<and> list_all (\<lambda>c. code c < 128) ''QQ=='' \<and> 2 \<le> length ''QQ==''
   \<and> spec_base64_token ''QQ==''
   \<and> validate_message WAITING_B64_DATA \<lparr>direction = B_TO_A, text_message = ''B64: QQ==''\<rparr> = Some (MESSAGE_VALID, CONNECTED)
   \<and> validate_message_part000 WAITING_B64_DATA \<lparr>direction = B_TO_A, text_message = ''B64: QQ==''\<rparr> = Some (MESSAGE_VALID, CONNECTED)
   \<and> NUL \<notin> set ''SGVsbG8='' \<and> list_all (\<lambda>c. code c < 128) ''SGVsbG8=''
   \<and> 2 \<le> length ''SGVsbG8='' \<and> spec_base64_token ''SGVsbG8=''
   \<and> validate_message WAITING_B64_DATA \<lparr>direction = B_TO_A, text_message = ''B64: SGVsbG8=''\<rparr> = Some (MESSAGE_VALID, CONNECTED)
   \<and> validate_message_part000 WAITING_B64_DATA \<lparr>direction = B_TO_A, text_message = ''B64: SGVsbG8=''\<rparr> = Some (MESSAGE_VALID, CONNECTED)
   \<and> NUL \<notin> set ''QQ='' \<and> list_all (\<lambda>c. code c < 128) ''QQ='' \<and> 2 \<le> length ''QQ=''
   \<and> \<not> spec_base64_token ''QQ=''
   \<and> validate_message WAITING_B64_DATA \<lparr>direction = B_TO_A, text_message = ''B64: QQ=''\<rparr> = Some (MESSAGE_INVALID, INIT)
   \<and> validate_message_part000 WAITING_B64_DATA \<lparr>direction = B_TO_A, text_message = ''B64: QQ=''\<rparr> = Some (MESSAGE_INVALID, INIT)"
proof -
  have n: "NUL \<notin> set ''QQ==''" "NUL \<notin> set ''SGVsbG8=''" "NUL \<notin> set ''QQ=''"
    by (simp_all add: NUL_def)
  have a: "list_all (\<lambda>c. code c < 128) ''QQ==''" "list_all (\<lambda>c. code c < 128) ''SGVsbG8=''"
    "list_all (\<lambda>c. code c < 128) ''QQ=''"
    by code_simp+
  have s: "spec_base64_token ''QQ==''" "spec_base64_token ''SGVsbG8=''"
    "\<not> spec_base64_token ''QQ=''"
    by code_simp+
  show ?thesis
    using C8_base64_grammar [OF n(1)] C8_base64_grammar [OF n(2)] C8_base64_grammar [OF n(3)]
      n a s
    by simp
qed

section \<open>The claims settled by running the validators\<close>

text \<open>
  C1: in every phase but \<^verbatim>\<open>Init\<close> a message that does not match the row of the phase is
  to return \<^verbatim>\<open>Invalid\<close> and set the phase to \<^verbatim>\<open>Init\<close>, in particular in \<^verbatim>\<open>WaitingData\<close> for
  a B-to-A message that starts with none of the three commands. Both validators return
  \<^verbatim>\<open>MESSAGE_VALID\<close> for such a message and stay in \<^verbatim>\<open>WAITING_DATA\<close>; and in \<^verbatim>\<open>CONNECTED\<close>
  an A-to-B message with an unknown text returns \<^verbatim>\<open>MESSAGE_INVALID\<close> and stays in
  \<^verbatim>\<open>CONNECTED\<close>.
\<close>

theorem C1_unmatched_message_keeps_phase:
  "validate_message WAITING_DATA \<lparr>direction = B_TO_A, text_message = ''HELLO''\<rparr> = Some (MESSAGE_VALID, WAITING_DATA)
   \<and> validate_message_part000 WAITING_DATA \<lparr>direction = B_TO_A, text_message = ''HELLO''\<rparr> = Some (MESSAGE_VALID, WAITING_DATA)
   \<and> validate_message CONNECTED \<lparr>direction = A_TO_B, text_message = ''HELLO''\<rparr> = Some (MESSAGE_INVALID, CONNECTED)
   \<and> validate_message_part000 CONNECTED \<lparr>direction = A_TO_B, text_message = ''HELLO''\<rparr> = Some (MESSAGE_INVALID, CONNECTED)"
  by code_simp

text \<open>
  C2: the validator is to return a verdict for every well-formed message without reading
  outside the text, also when the token after \<^verbatim>\<open>B64: \<close> has fewer than two characters.
  For the texts \<^verbatim>\<open>B64: \<close> and \<^verbatim>\<open>B64: A\<close> the first test of the loop reads position 7, which
  lies beyond the terminating null (at position 5, respectively 6), and both validators end
  with that read instead of a verdict.
\<close>

theorem C2_base64_scan_reads_past_null:
  "char_at ''B64: '' (5 + 2) = None
   \<and> validate_message WAITING_B64_DATA \<lparr>direction = B_TO_A, text_message = ''B64: ''\<rparr> = None
   \<and> validate_message_part000 WAITING_B64_DATA \<lparr>direction = B_TO_A, text_message = ''B64: ''\<rparr> = None
   \<and> char_at ''B64: A'' (5 + 2) = None
   \<and> validate_message WAITING_B64_DATA \<lparr>direction = B_TO_A, text_message = ''B64: A''\<rparr> = None
   \<and> validate_message_part000 WAITING_B64_DATA \<lparr>direction = B_TO_A, text_message = ''B64: A''\<rparr> = None"
  by code_simp

text \<open>
  C3: in \<^verbatim>\<open>WaitingData\<close> only the command that was sent in \<^verbatim>\<open>Connected\<close> is to be accepted
  as prefix and suffix of the reply. The state does not record the command: after
  \<^verbatim>\<open>GET_DATA\<close> the reply \<^verbatim>\<open>GET_FILE a GET_FILE\<close> is accepted by both validators, as is the
  reply \<^verbatim>\<open>GET_COMMAND a GET_COMMAND\<close> after \<^verbatim>\<open>GET_FILE\<close>.
\<close>

theorem C3_echo_of_other_command_accepted:
  "validate_all validate_message CONNECTED [\<lparr>direction = A_TO_B, text_message = ''GET_DATA''\<rparr>, \<lparr>direction = B_TO_A, text_message = ''GET_FILE a GET_FILE''\<rparr>]
     = Some ([MESSAGE_VALID, MESSAGE_VALID], CONNECTED)
   \<and> validate_all validate_message_part000 CONNECTED [\<lparr>direction = A_TO_B, text_message = ''GET_DATA''\<rparr>, \<lparr>direction = B_TO_A, text_message = ''GET_FILE a GET_FILE''\<rparr>]
     = Some ([MESSAGE_VALID, MESSAGE_VALID], CONNECTED)
   \<and> validate_all validate_message CONNECTED [\<lparr>direction = A_TO_B, text_message = ''GET_FILE''\<rparr>, \<lparr>direction = B_TO_A, text_message = ''GET_COMMAND a GET_COMMAND''\<rparr>]
     = Some ([MESSAGE_VALID, MESSAGE_VALID], CONNECTED)
   \<and> validate_all validate_message_part000 CONNECTED [\<lparr>direction = A_TO_B, text_message = ''GET_FILE''\<rparr>, \<lparr>direction = B_TO_A, text_message = ''GET_COMMAND a GET_COMMAND''\<rparr>]
     = Some ([MESSAGE_VALID, MESSAGE_VALID], CONNECTED)"
  by code_simp

text \<open>
  C4: in \<^verbatim>\<open>WaitingData\<close> a token with a character other than a lowercase letter, a digit
  or \<^verbatim>\<open>.\<close> is to be rejected, \<^verbatim>\<open>:\<close> and \<^verbatim>\<open>;\<close> included. The range test of \<^verbatim>\<open>splpv1.c\<close> ends
  at 59 instead of 57, so it accepts tokens with \<^verbatim>\<open>:\<close> (58) and \<^verbatim>\<open>;\<close> (59); the table of
  \<^verbatim>\<open>part_000\<close> rejects them.
\<close>

theorem C4_colon_and_semicolon_accepted:
  "validate_message WAITING_DATA \<lparr>direction = B_TO_A, text_message = ''GET_DATA a: GET_DATA''\<rparr> = Some (MESSAGE_VALID, CONNECTED)
   \<and> validate_message WAITING_DATA \<lparr>direction = B_TO_A, text_message = ''GET_FILE ; GET_FILE''\<rparr> = Some (MESSAGE_VALID, CONNECTED)
   \<and> validate_message_part000 WAITING_DATA \<lparr>direction = B_TO_A, text_message = ''GET_DATA a: GET_DATA''\<rparr> = Some (MESSAGE_INVALID, INIT)
   \<and> validate_message_part000 WAITING_DATA \<lparr>direction = B_TO_A, text_message = ''GET_FILE ; GET_FILE''\<rparr> = Some (MESSAGE_INVALID, INIT)"
  by code_simp

text \<open>
  C5: in \<^verbatim>\<open>WaitingData\<close> the token between the two commands is to be non-empty, so that
  a command, two spaces and the command again is \<^verbatim>\<open>Invalid\<close>. Neither validator tests that
  the loop over the token has moved: the message is valid.
\<close>

theorem C5_empty_token_counterexample:
  "validate_message WAITING_DATA
     \<lparr>direction = B_TO_A, text_message = ''GET_DATA  GET_DATA''\<rparr> \<noteq> Some (MESSAGE_INVALID, INIT)
   \<and> validate_message_part000 WAITING_DATA
     \<lparr>direction = B_TO_A, text_message = ''GET_DATA  GET_DATA''\<rparr> \<noteq> Some (MESSAGE_INVALID, INIT)"
  by code_simp

text \<open>
  C5 as amended: in \<^verbatim>\<open>WaitingData\<close> the token may be empty. For each of the three commands
  the B-to-A message made of the command, two spaces and the command again is valid and
  moves the phase to \<^verbatim>\<open>Connected\<close>, in both validators.
\<close>

theorem C5_empty_token_accepted:
  "validate_message WAITING_DATA
     \<lparr>direction = B_TO_A, text_message = GET_DATA @ ''  '' @ GET_DATA\<rparr>
     = Some (MESSAGE_VALID, CONNECTED)
   \<and> validate_message WAITING_DATA
     \<lparr>direction = B_TO_A, text_message = GET_FILE @ ''  '' @ GET_FILE\<rparr>
     = Some (MESSAGE_VALID, CONNECTED)
   \<and> validate_message WAITING_DATA
     \<lparr>direction = B_TO_A, text_message = GET_COMMAND @ ''  '' @ GET_COMMAND\<rparr>
     = Some (MESSAGE_VALID, CONNECTED)
   \<and> validate_message_part000 WAITING_DATA
     \<lparr>direction = B_TO_A, text_message = GET_DATA @ ''  '' @ GET_DATA\<rparr>
     = Some (MESSAGE_VALID, CONNECTED)
   \<and> validate_message_part000 WAITING_DATA
     \<lparr>direction = B_TO_A, text_message = GET_FILE @ ''  '' @ GET_FILE\<rparr>
     = Some (MESSAGE_VALID, CONNECTED)
   \<and> validate_message_part000 WAITING_DATA
     \<lparr>direction = B_TO_A, text_message = GET_COMMAND @ ''  '' @ GET_COMMAND\<rparr>
     = Some (MESSAGE_VALID, CONNECTED)"
  by code_simp

text \<open>
  C6: in \<^verbatim>\<open>WaitingVersion\<close> the text \<^verbatim>\<open>VERSION \<close> with nothing after the space is to be
  \<^verbatim>\<open>Invalid\<close>. The loop over the digits makes no iteration on it and both validators return
  \<^verbatim>\<open>MESSAGE_VALID\<close>. The other five texts of the claim get the verdicts it states:
  \<^verbatim>\<open>VERSION 0\<close> and \<^verbatim>\<open>VERSION 123\<close> are valid, \<^verbatim>\<open>VERSION\<close>, \<^verbatim>\<open>VERSION -1\<close> and
  \<^verbatim>\<open>VERSION 1 2\<close> are invalid.
\<close>

theorem C6_version_without_digits_accepted:
  "validate_message WAITING_VER \<lparr>direction = B_TO_A, text_message = ''VERSION ''\<rparr> = Some (MESSAGE_VALID, CONNECTED)
   \<and> validate_message_part000 WAITING_VER \<lparr>direction = B_TO_A, text_message = ''VERSION ''\<rparr> = Some (MESSAGE_VALID, CONNECTED)
   \<and> map (validate_message WAITING_VER) [\<lparr>direction = B_TO_A, text_message = ''VERSION 0''\<rparr>, \<lparr>direction = B_TO_A, text_message = ''VERSION 123''\<rparr>, \<lparr>direction = B_TO_A, text_message = ''VERSION''\<rparr>, \<lparr>direction = B_TO_A, text_message = ''VERSION -1''\<rparr>, \<lparr>direction = B_TO_A, text_message = ''VERSION 1 2''\<rparr>]
     = [Some (MESSAGE_VALID, CONNECTED), Some (MESSAGE_VALID, CONNECTED),
        Some (MESSAGE_INVALID, INIT), Some (MESSAGE_INVALID, INIT), Some (MESSAGE_INVALID, INIT)]
   \<and> map (validate_message_part000 WAITING_VER) [\<lparr>direction = B_TO_A, text_message = ''VERSION 0''\<rparr>, \<lparr>direction = B_TO_A, text_message = ''VERSION 123''\<rparr>, \<lparr>direction = B_TO_A, text_message = ''VERSION''\<rparr>, \<lparr>direction = B_TO_A, text_message = ''VERSION -1''\<rparr>, \<lparr>direction = B_TO_A, text_message = ''VERSION 1 2''\<rparr>]
     = [Some (MESSAGE_VALID, CONNECTED), Some (MESSAGE_VALID, CONNECTED),
        Some (MESSAGE_INVALID, INIT), Some (MESSAGE_INVALID, INIT), Some (MESSAGE_INVALID, INIT)]"
  by code_simp

text \<open>
  C7: the direction is to be checked in every phase, so that an A-to-B message in
  \<^verbatim>\<open>WaitingVersion\<close> is \<^verbatim>\<open>Invalid\<close> and resets the phase. \<^verbatim>\<open>WAITING_VER\<close> in \<^verbatim>\<open>splpv1.c\<close>
  has no test of the direction and accepts \<^verbatim>\<open>VERSION 3\<close> sent A-to-B; \<^verbatim>\<open>part_000\<close> has the
  test and rejects it.
\<close>

theorem C7_version_direction_not_checked:
  "validate_message WAITING_VER \<lparr>direction = A_TO_B, text_message = ''VERSION 3''\<rparr> = Some (MESSAGE_VALID, CONNECTED)
   \<and> validate_message_part000 WAITING_VER \<lparr>direction = A_TO_B, text_message = ''VERSION 3''\<rparr> = Some (MESSAGE_INVALID, INIT)"
  by code_simp

text \<open>
  C9: from \<^verbatim>\<open>Init\<close> the four messages \<^verbatim>\<open>CONNECT\<close> (A to B), \<^verbatim>\<open>CONNECT_OK\<close> (B to A),
  \<^verbatim>\<open>GET_VER\<close> (A to B) and \<^verbatim>\<open>VERSION 3\<close> (B to A) are valid, each in its turn, and leave
  the phase \<^verbatim>\<open>Connected\<close>, in both validators.
\<close>

theorem C9_round_trip:
  "validate_all validate_message INIT [\<lparr>direction = A_TO_B, text_message = ''CONNECT''\<rparr>, \<lparr>direction = B_TO_A, text_message = ''CONNECT_OK''\<rparr>, \<lparr>direction = A_TO_B, text_message = ''GET_VER''\<rparr>, \<lparr>direction = B_TO_A, text_message = ''VERSION 3''\<rparr>]
     = Some ([MESSAGE_VALID, MESSAGE_VALID, MESSAGE_VALID, MESSAGE_VALID], CONNECTED)
   \<and> validate_all validate_message_part000 INIT [\<lparr>direction = A_TO_B, text_message = ''CONNECT''\<rparr>, \<lparr>direction = B_TO_A, text_message = ''CONNECT_OK''\<rparr>, \<lparr>direction = A_TO_B, text_message = ''GET_VER''\<rparr>, \<lparr>direction = B_TO_A, text_message = ''VERSION 3''\<rparr>]
     = Some ([MESSAGE_VALID, MESSAGE_VALID, MESSAGE_VALID, MESSAGE_VALID], CONNECTED)"
  by code_simp

text \<open>
  C10: the two validators are to return the same verdict and the same next phase for
  every phase and message. They differ in \<^verbatim>\<open>WAITING_VER\<close> on an A-to-B message (the test of
  the direction that \<^verbatim>\<open>splpv1.c\<close> lacks) and in \<^verbatim>\<open>WAITING_DATA\<close> on a token with \<^verbatim>\<open>:\<close> or
  \<^verbatim>\<open>;\<close> (the range of \<^verbatim>\<open>splpv1.c\<close> that ends at 59).
\<close>

theorem C10_validators_differ:
  "validate_message WAITING_VER \<lparr>direction = A_TO_B, text_message = ''VERSION 12''\<rparr> \<noteq> validate_message_part000 WAITING_VER \<lparr>direction = A_TO_B, text_message = ''VERSION 12''\<rparr>
   \<and> validate_message WAITING_DATA \<lparr>direction = B_TO_A, text_message = ''GET_COMMAND x;y GET_COMMAND''\<rparr> \<noteq> validate_message_part000 WAITING_DATA \<lparr>direction = B_TO_A, text_message = ''GET_COMMAND x;y GET_COMMAND''\<rparr>"
  by code_simp

end
